theory Spec2Isabelle
  imports Main "HOL-Library.Sublist"
begin

section \<open>The manifest generator \<open>generate_plugins_json.py\<close>\<close>

text \<open>
  The script lists the directory \<open>plugins\<close>, reads every entry whose name ends in
  \<open>.py\<close>, collects the metadata assignments of the text with a regular expression,
  and appends one record per file that has all four fields. The list of records is then
  written to \<open>plugins.json\<close> as JSON and a one-line summary is printed.
  The source file ends, after the \<open>print\<close>, with the line
  \<^verbatim>\<open>Add plugin auto-update script\<close>, which is not Python; what is modelled is the
  script above that line.

  A Python \<open>str\<close> is a sequence of Unicode code points, so a character is a natural
  number here and a string is a list of them. \<open>lit\<close> turns a literal of the theory
  into such a string.
\<close>

type_synonym codepoint = nat
type_synonym str = "codepoint list"

definition lit :: "string \<Rightarrow> str" where
  "lit = map of_char"

subsection \<open>The regular expression\<close>

text \<open>
  \<^verbatim>\<open>__plugin_(name|author|version|description)__\s*=\s*["\'](.+?)["\']\<close>

  Python's \<open>re\<close> is a backtracking matcher. Each construct of the pattern is a function
  that takes the rest of the pattern as a continuation \<open>k\<close> and the text still to be
  read; \<open>None\<close> is failure, which makes the enclosing construct try its next choice.
  An alternation tries its branches from left to right. The greedy \<open>\s*\<close> takes one
  more character first and falls back to the continuation. The lazy \<open>.+?\<close> takes one
  character, then tries the continuation first and takes one more character only when
  the continuation fails.
\<close>

fun literal :: "str \<Rightarrow> (str \<Rightarrow> 'a option) \<Rightarrow> str \<Rightarrow> 'a option" where
  "literal [] k s = k s"
| "literal (p # ps) k [] = None"
| "literal (p # ps) k (c # cs) = (if p = c then literal ps k cs else None)"

fun alternatives :: "str list \<Rightarrow> (str \<Rightarrow> str \<Rightarrow> 'a option) \<Rightarrow> str \<Rightarrow> 'a option" where
  "alternatives [] k s = None"
| "alternatives (p # ps) k s =
     (case literal p (k p) s of Some r \<Rightarrow> Some r | None \<Rightarrow> alternatives ps k s)"

fun greedy_star :: "(codepoint \<Rightarrow> bool) \<Rightarrow> (str \<Rightarrow> 'a option) \<Rightarrow> str \<Rightarrow> 'a option" where
  "greedy_star P k [] = k []"
| "greedy_star P k (c # cs) =
     (if P c then (case greedy_star P k cs of Some r \<Rightarrow> Some r | None \<Rightarrow> k (c # cs))
      else k (c # cs))"

fun char_class :: "(codepoint \<Rightarrow> bool) \<Rightarrow> (str \<Rightarrow> 'a option) \<Rightarrow> str \<Rightarrow> 'a option" where
  "char_class P k [] = None"
| "char_class P k (c # cs) = (if P c then k cs else None)"

fun lazy_star ::
  "(codepoint \<Rightarrow> bool) \<Rightarrow> str \<Rightarrow> (str \<Rightarrow> str \<Rightarrow> 'a option) \<Rightarrow> str \<Rightarrow> 'a option" where
  "lazy_star P acc k [] = k acc []"
| "lazy_star P acc k (c # cs) =
     (case k acc (c # cs) of Some r \<Rightarrow> Some r
      | None \<Rightarrow> if P c then lazy_star P (acc @ [c]) k cs else None)"

fun lazy_plus :: "(codepoint \<Rightarrow> bool) \<Rightarrow> (str \<Rightarrow> str \<Rightarrow> 'a option) \<Rightarrow> str \<Rightarrow> 'a option" where
  "lazy_plus P k [] = None"
| "lazy_plus P k (c # cs) = (if P c then lazy_star P [c] k cs else None)"

text \<open>
  \<open>\s\<close> on a \<open>str\<close> pattern is the Unicode whitespace test of the interpreter
  (\<open>Py_UNICODE_ISSPACE\<close>); the quote class is \<open>"\<close> and \<open>'\<close>; the dot is every
  character but the line feed.
\<close>

definition isspace :: "codepoint \<Rightarrow> bool" where
  "isspace c \<longleftrightarrow>
     (9 \<le> c \<and> c \<le> 13) \<or> (28 \<le> c \<and> c \<le> 32) \<or> c = 0x85 \<or> c = 0xA0 \<or> c = 0x1680 \<or>
     (0x2000 \<le> c \<and> c \<le> 0x200A) \<or> c = 0x2028 \<or> c = 0x2029 \<or> c = 0x202F \<or>
     c = 0x205F \<or> c = 0x3000"

definition is_quote :: "codepoint \<Rightarrow> bool" where
  "is_quote c \<longleftrightarrow> c = 0x22 \<or> c = 0x27"

definition not_newline :: "codepoint \<Rightarrow> bool" where
  "not_newline c \<longleftrightarrow> c \<noteq> 0x0A"

definition field_names :: "str list" where
  "field_names = [lit ''name'', lit ''author'', lit ''version'', lit ''description'']"

text \<open>
  One attempt of the pattern at the start of the text: the two groups and the text left
  after the match.
\<close>

definition metadata_pattern :: "str \<Rightarrow> (str \<times> str \<times> str) option" where
  "metadata_pattern =
     literal (lit ''__plugin_'')
       (alternatives field_names (\<lambda>g1.
          literal (lit ''__'')
            (greedy_star isspace
               (literal (lit ''='')
                  (greedy_star isspace
                     (char_class is_quote
                        (lazy_plus not_newline (\<lambda>g2.
                           char_class is_quote (\<lambda>rest. Some (g1, g2, rest))))))))))"

subsection \<open>A match consumes text\<close>

lemma literal_Some:
  "literal p k s = Some r \<Longrightarrow> \<exists>s'. s = p @ s' \<and> k s' = Some r"
  by (induction p k s rule: literal.induct) (auto split: if_splits)

lemma alternatives_Some:
  "alternatives ps k s = Some r \<Longrightarrow> \<exists>p s'. p \<in> set ps \<and> s = p @ s' \<and> k p s' = Some r"
proof (induction ps)
  case Nil
  then show ?case by simp
next
  case (Cons p ps)
  show ?case
  proof (cases "literal p (k p) s")
    case None
    with Cons show ?thesis by auto
  next
    case (Some r')
    with Cons.prems have "literal p (k p) s = Some r" by simp
    from literal_Some [OF this] show ?thesis by auto
  qed
qed

lemma greedy_star_Some:
  "greedy_star P k s = Some r \<Longrightarrow> \<exists>ws s'. s = ws @ s' \<and> list_all P ws \<and> k s' = Some r"
proof (induction s)
  case Nil
  then show ?case by simp
next
  case (Cons c cs)
  show ?case
  proof (cases "P c \<and> greedy_star P k cs \<noteq> None")
    case True
    with Cons.prems have "greedy_star P k cs = Some r" by auto
    from Cons.IH [OF this] obtain ws s' where
      "cs = ws @ s'" "list_all P ws" "k s' = Some r" by blast
    with True have "c # cs = (c # ws) @ s' \<and> list_all P (c # ws) \<and> k s' = Some r" by simp
    then show ?thesis by blast
  next
    case False
    with Cons.prems have "k (c # cs) = Some r" by (auto split: if_splits)
    then have "c # cs = [] @ (c # cs) \<and> list_all P [] \<and> k (c # cs) = Some r" by simp
    then show ?thesis by blast
  qed
qed

lemma char_class_Some:
  "char_class P k s = Some r \<Longrightarrow> \<exists>c s'. s = c # s' \<and> P c \<and> k s' = Some r"
  by (cases s) (auto split: if_splits)

lemma lazy_star_Some:
  "lazy_star P acc k s = Some r \<Longrightarrow>
     \<exists>v s'. s = v @ s' \<and> list_all P v \<and> k (acc @ v) s' = Some r"
proof (induction s arbitrary: acc)
  case Nil
  then show ?case by simp
next
  case (Cons c cs)
  show ?case
  proof (cases "k acc (c # cs)")
    case (Some r')
    with Cons.prems have "k (acc @ []) (c # cs) = Some r" by simp
    then have "c # cs = [] @ (c # cs) \<and> list_all P [] \<and> k (acc @ []) (c # cs) = Some r"
      by simp
    then show ?thesis by blast
  next
    case None
    with Cons.prems have c: "P c" and "lazy_star P (acc @ [c]) k cs = Some r"
      by (auto split: if_splits)
    from Cons.IH [OF this(2)] obtain v s' where
      "cs = v @ s'" "list_all P v" "k ((acc @ [c]) @ v) s' = Some r" by blast
    with c have "c # cs = (c # v) @ s' \<and> list_all P (c # v) \<and> k (acc @ c # v) s' = Some r"
      by simp
    then show ?thesis by blast
  qed
qed

lemma lazy_plus_Some:
  "lazy_plus P k s = Some r \<Longrightarrow>
     \<exists>v s'. v \<noteq> [] \<and> s = v @ s' \<and> list_all P v \<and> k v s' = Some r"
proof (cases s)
  case Nil
  then show "lazy_plus P k s = Some r \<Longrightarrow> ?thesis" by simp
next
  case (Cons c cs)
  assume "lazy_plus P k s = Some r"
  with Cons have c: "P c" and "lazy_star P [c] k cs = Some r"
    by (auto split: if_splits)
  from lazy_star_Some [OF this(2)] obtain v s' where
    "cs = v @ s'" "list_all P v" "k ([c] @ v) s' = Some r" by blast
  with c Cons have "c # v \<noteq> [] \<and> s = (c # v) @ s' \<and> list_all P (c # v) \<and> k (c # v) s' = Some r"
    by simp
  then show ?thesis by blast
qed

text \<open>The shape of every match: what the pattern read, piece by piece.\<close>

lemma metadata_pattern_Some:
  assumes "metadata_pattern s = Some (g1, g2, rest)"
  shows "\<exists>ws1 ws2 q1 q2.
           s = lit ''__plugin_'' @ g1 @ lit ''__'' @ ws1 @ lit ''='' @ ws2 @ q1 # g2 @ q2 # rest \<and>
           g1 \<in> set field_names \<and> list_all isspace ws1 \<and> list_all isspace ws2 \<and>
           is_quote q1 \<and> g2 \<noteq> [] \<and> list_all not_newline g2 \<and> is_quote q2"
proof -
  from assms obtain s1 where s1: "s = lit ''__plugin_'' @ s1" and
    "alternatives field_names (\<lambda>g1.
          literal (lit ''__'')
            (greedy_star isspace
               (literal (lit ''='')
                  (greedy_star isspace
                     (char_class is_quote
                        (lazy_plus not_newline (\<lambda>g2.
                           char_class is_quote (\<lambda>rest. Some (g1, g2, rest))))))))) s1
       = Some (g1, g2, rest)"
    unfolding metadata_pattern_def by (blast dest: literal_Some)
  from alternatives_Some [OF this(2)] obtain f s2 where f: "f \<in> set field_names"
    and s2: "s1 = f @ s2" and
    "literal (lit ''__'')
            (greedy_star isspace
               (literal (lit ''='')
                  (greedy_star isspace
                     (char_class is_quote
                        (lazy_plus not_newline (\<lambda>g2.
                           char_class is_quote (\<lambda>rest. Some (f, g2, rest)))))))) s2
       = Some (g1, g2, rest)"
    by blast
  from literal_Some [OF this(3)] obtain s3 where s3: "s2 = lit ''__'' @ s3" and
    "greedy_star isspace
               (literal (lit ''='')
                  (greedy_star isspace
                     (char_class is_quote
                        (lazy_plus not_newline (\<lambda>g2.
                           char_class is_quote (\<lambda>rest. Some (f, g2, rest))))))) s3
       = Some (g1, g2, rest)"
    by blast
  from greedy_star_Some [OF this(2)] obtain ws1 s4 where s4: "s3 = ws1 @ s4"
    and ws1: "list_all isspace ws1" and
    "literal (lit ''='')
                  (greedy_star isspace
                     (char_class is_quote
                        (lazy_plus not_newline (\<lambda>g2.
                           char_class is_quote (\<lambda>rest. Some (f, g2, rest)))))) s4
       = Some (g1, g2, rest)"
    by blast
  from literal_Some [OF this(3)] obtain s5 where s5: "s4 = lit ''='' @ s5" and
    "greedy_star isspace
                     (char_class is_quote
                        (lazy_plus not_newline (\<lambda>g2.
                           char_class is_quote (\<lambda>rest. Some (f, g2, rest))))) s5
       = Some (g1, g2, rest)"
    by blast
  from greedy_star_Some [OF this(2)] obtain ws2 s6 where s6: "s5 = ws2 @ s6"
    and ws2: "list_all isspace ws2" and
    "char_class is_quote
                        (lazy_plus not_newline (\<lambda>g2.
                           char_class is_quote (\<lambda>rest. Some (f, g2, rest)))) s6
       = Some (g1, g2, rest)"
    by blast
  from char_class_Some [OF this(3)] obtain q1 s7 where s7: "s6 = q1 # s7"
    and q1: "is_quote q1" and
    "lazy_plus not_newline (\<lambda>g2.
                           char_class is_quote (\<lambda>rest. Some (f, g2, rest))) s7
       = Some (g1, g2, rest)"
    by blast
  from lazy_plus_Some [OF this(3)] obtain v s8 where v: "v \<noteq> []" "list_all not_newline v"
    and s8: "s7 = v @ s8" and
    "char_class is_quote (\<lambda>rest. Some (f, v, rest)) s8 = Some (g1, g2, rest)"
    by blast
  from char_class_Some [OF this(4)] obtain q2 s9 where s9: "s8 = q2 # s9"
    and q2: "is_quote q2" and "Some (f, v, s9) = Some (g1, g2, rest)"
    by blast
  then have "f = g1" "v = g2" "s9 = rest" by simp_all
  with s1 s2 s3 s4 s5 s6 s7 s8 s9 f ws1 ws2 q1 q2 v show ?thesis
    by auto
qed

lemma metadata_pattern_shorter:
  "metadata_pattern s = Some (g1, g2, rest) \<Longrightarrow> length rest < length s"
  by (drule metadata_pattern_Some) auto

subsection \<open>\<open>re.findall\<close> and \<open>dict\<close>\<close>

text \<open>
  \<open>re.findall\<close> scans from left to right: where the pattern matches, the pair of groups
  is emitted and the scan goes on after the match; where it does not, the scan moves one
  character on. The pattern never matches the empty string, so the scan ends with the text.
\<close>

function findall :: "str \<Rightarrow> (str \<times> str) list" where
  "findall [] = []"
| "findall (c # cs) =
     (case metadata_pattern (c # cs) of
        Some (g1, g2, rest) \<Rightarrow> (g1, g2) # findall rest
      | None \<Rightarrow> findall cs)"
  by pat_completeness auto
termination
  by (relation "measure length") (auto dest: metadata_pattern_shorter)

text \<open>\<open>dict\<close> of a list of pairs stores them in order, a later pair replacing an earlier one.\<close>

definition dict :: "('k \<times> 'v) list \<Rightarrow> ('k \<rightharpoonup> 'v)" where
  "dict ps = foldl (\<lambda>m (k, v). m(k \<mapsto> v)) Map.empty ps"

subsection \<open>String operations of the script\<close>

definition endswith :: "str \<Rightarrow> str \<Rightarrow> bool" where
  "endswith s suf \<longleftrightarrow> length suf \<le> length s \<and> drop (length s - length suf) s = suf"

text \<open>
  \<open>str.replace(old, new)\<close> replaces every occurrence of \<open>old\<close>, found from left to
  right without overlap. With an empty \<open>old\<close> Python puts \<open>new\<close> before every
  character and at the end.
\<close>

function replace :: "str \<Rightarrow> str \<Rightarrow> str \<Rightarrow> str" where
  "replace [] new s = new @ concat (map (\<lambda>c. c # new) s)"
| "replace (p # ps) new [] = []"
| "replace (p # ps) new (c # cs) =
     (if prefix (p # ps) (c # cs) then new @ replace (p # ps) new (drop (length ps) cs)
      else c # replace (p # ps) new cs)"
  by pat_completeness auto
termination
  by (relation "measure (\<lambda>(old, new, s). length s)") auto

text \<open>\<open>os.path.join\<close> of two components (\<open>posixpath\<close>).\<close>

definition path_join :: "str \<Rightarrow> str \<Rightarrow> str" where
  "path_join a b =
     (if prefix (lit ''/'') b then b
      else if a = [] \<or> endswith a (lit ''/'') then a @ b
      else a @ lit ''/'' @ b)"

text \<open>\<open>str(n)\<close> for a length: the decimal digits.\<close>

function str_of_nat :: "nat \<Rightarrow> str" where
  "str_of_nat n = (if n < 10 then [48 + n] else str_of_nat (n div 10) @ [48 + n mod 10])"
  by pat_completeness auto
termination
  by (relation "measure id") auto

declare str_of_nat.simps [simp del]

subsection \<open>Constants, records and the world the script runs in\<close>

definition PLUGIN_DIR :: str where
  "PLUGIN_DIR = lit ''plugins''"

definition ICON_DIR :: str where
  "ICON_DIR = lit ''icons''"

definition OUTPUT_FILE :: str where
  "OUTPUT_FILE = lit ''plugins.json''"

definition BASE_URL :: str where
  "BASE_URL = lit ''https://raw.githubusercontent.com/AidenZaire/algebytestore/main/''"

text \<open>
  One entry of \<open>plugins_data\<close>: a dictionary with these six keys, inserted in this order.
\<close>

record plugin =
  name :: str
  author :: str
  version :: str
  description :: str
  icon_url :: str
  download_url :: str

text \<open>
  What the script sees of its environment: the result of \<open>os.listdir(PLUGIN_DIR)\<close>
  (\<open>None\<close> when it raises), the decoded text of each file by path (\<open>None\<close> when opening,
  reading or decoding it raises), and what becomes of its two outputs. Opening the output
  file for writing can raise. Once the file is open it is empty, and \<open>json.dump\<close>
  streams the text into it: \<open>write_fails_after = Some k\<close> is a write (or the closing of the
  file) that raises when \<open>k\<close> characters have reached the file. In the same way
  \<open>print_fails_after = Some k\<close> is a \<open>print\<close> that raises when \<open>k\<close> characters have
  reached standard output (none at all when the stream cannot encode the line).
  \<open>stdout\<close> is the text printed so far.
\<close>

record world =
  listdir :: "str list option"
  file_text :: "str \<Rightarrow> str option"
  open_output_fails :: bool
  write_fails_after :: "nat option"
  print_fails_after :: "nat option"
  stdout :: str

datatype error = ListDirError | ReadError str | OpenError | WriteError | PrintError

text \<open>
  Both outputs can be written: the output file opens and takes the whole text, and standard
  output takes the summary line.
\<close>

definition output_writable :: "world \<Rightarrow> bool" where
  "output_writable w \<longleftrightarrow>
     \<not> open_output_fails w \<and> write_fails_after w = None \<and> print_fails_after w = None"

subsection \<open>The loop over the directory\<close>

definition meta_matches :: "str \<Rightarrow> (str \<rightharpoonup> str)" where
  "meta_matches content = dict (findall content)"

definition has_all_fields :: "(str \<rightharpoonup> str) \<Rightarrow> bool" where
  "has_all_fields m \<longleftrightarrow> list_all (\<lambda>k. m k \<noteq> None) field_names"

definition make_icon_url :: "str \<Rightarrow> str" where
  "make_icon_url filename =
     BASE_URL @ ICON_DIR @ lit ''/'' @ replace (lit ''.py'') (lit ''.png'') filename"

definition make_download_url :: "str \<Rightarrow> str" where
  "make_download_url filename = BASE_URL @ PLUGIN_DIR @ lit ''/'' @ filename"

text \<open>The dictionary appended for a file; the lookups are behind the test of the script.\<close>

definition make_plugin :: "str \<Rightarrow> (str \<rightharpoonup> str) \<Rightarrow> plugin" where
  "make_plugin filename m =
     \<lparr> name = the (m (lit ''name'')),
       author = the (m (lit ''author'')),
       version = the (m (lit ''version'')),
       description = the (m (lit ''description'')),
       icon_url = make_icon_url filename,
       download_url = make_download_url filename \<rparr>"

text \<open>
  The \<open>for\<close> loop, with \<open>plugins_data\<close> as accumulator. A file that cannot be read
  raises, which ends the loop and the script.
\<close>

fun scan_plugins :: "world \<Rightarrow> str list \<Rightarrow> plugin list \<Rightarrow> error + plugin list" where
  "scan_plugins w [] plugins_data = Inr plugins_data"
| "scan_plugins w (filename # rest) plugins_data =
     (if endswith filename (lit ''.py'') then
        (let plugin_path = path_join PLUGIN_DIR filename in
         case file_text w plugin_path of
           None \<Rightarrow> Inl (ReadError plugin_path)
         | Some content \<Rightarrow>
             (let m = meta_matches content in
              if has_all_fields m
              then scan_plugins w rest (plugins_data @ [make_plugin filename m])
              else scan_plugins w rest plugins_data))
      else scan_plugins w rest plugins_data)"

subsection \<open>\<open>json.dump\<close> with \<open>indent=2\<close>\<close>

text \<open>
  A string is written between double quotes with \<open>ensure_ascii\<close> escaping: the
  backslash, the double quote and five control characters have two-character escapes,
  the other printable ASCII characters stand for themselves, and every other code point
  is \<open>\uXXXX\<close>, as a surrogate pair above the basic plane.
\<close>

definition hexdigit :: "nat \<Rightarrow> codepoint" where
  "hexdigit d = (if d < 10 then 48 + d else 87 + d)"

definition hex4 :: "nat \<Rightarrow> str" where
  "hex4 n = [hexdigit (n div 4096 mod 16), hexdigit (n div 256 mod 16),
             hexdigit (n div 16 mod 16), hexdigit (n mod 16)]"

definition escape_char :: "codepoint \<Rightarrow> str" where
  "escape_char c =
     (if c = 0x5C then [0x5C, 0x5C]
      else if c = 0x22 then [0x5C, 0x22]
      else if c = 8 then [0x5C, 0x62]
      else if c = 12 then [0x5C, 0x66]
      else if c = 10 then [0x5C, 0x6E]
      else if c = 13 then [0x5C, 0x72]
      else if c = 9 then [0x5C, 0x74]
      else if 0x20 \<le> c \<and> c \<le> 0x7E then [c]
      else if c < 0x10000 then [0x5C, 0x75] @ hex4 c
      else [0x5C, 0x75] @ hex4 (0xD800 + (c - 0x10000) div 1024 mod 1024) @
           [0x5C, 0x75] @ hex4 (0xDC00 + (c - 0x10000) mod 1024))"

definition encode_string :: "str \<Rightarrow> str" where
  "encode_string s = [0x22] @ concat (map escape_char s) @ [0x22]"

text \<open>
  A dictionary at nesting level one: each item on its own line, indented by four spaces,
  separated by commas, the closing brace indented by two.
\<close>

definition encode_item :: "str \<Rightarrow> str \<Rightarrow> str" where
  "encode_item key val = encode_string key @ lit '': '' @ encode_string val"

definition plugin_items :: "plugin \<Rightarrow> (str \<times> str) list" where
  "plugin_items p =
     [(lit ''name'', name p), (lit ''author'', author p), (lit ''version'', version p),
      (lit ''description'', description p), (lit ''icon_url'', icon_url p),
      (lit ''download_url'', download_url p)]"

fun join_with :: "str \<Rightarrow> str list \<Rightarrow> str" where
  "join_with sep [] = []"
| "join_with sep [x] = x"
| "join_with sep (x # y # ys) = x @ sep @ join_with sep (y # ys)"

definition encode_plugin :: "plugin \<Rightarrow> str" where
  "encode_plugin p =
     lit ''{'' @ [10] @ lit ''    '' @
     join_with (lit '','' @ [10] @ lit ''    '')
       (map (\<lambda>(k, v). encode_item k v) (plugin_items p)) @
     [10] @ lit ''  '' @ lit ''}''"

text \<open>
  The list: \<open>[]\<close> when empty, otherwise each element on a new line, indented by two
  spaces, separated by commas, and the closing bracket on a line of its own.
\<close>

definition json_dumps :: "plugin list \<Rightarrow> str" where
  "json_dumps plugins_data =
     (if plugins_data = [] then lit ''[]''
      else lit ''['' @ [10] @ lit ''  '' @
           join_with (lit '','' @ [10] @ lit ''  '') (map encode_plugin plugins_data) @
           [10] @ lit '']'')"

subsection \<open>The script\<close>

definition summary_line :: "nat \<Rightarrow> str" where
  "summary_line n =
     [0x2705] @ lit '' Generated '' @ OUTPUT_FILE @ lit '' with '' @ str_of_nat n @
     lit '' plugins.''"

text \<open>
  The whole run. Nothing is written or printed before the loop is over, so an exception of
  the listing, of a read or of the opening of the output file leaves the world as it was.
  A write that raises leaves in the output file the part of the text that had reached it.
  The summary is printed after the file has been written and closed, so a \<open>print\<close> that
  raises leaves the whole manifest behind.
\<close>

definition main :: "world \<Rightarrow> (error + unit) \<times> world" where
  "main w =
     (case listdir w of
        None \<Rightarrow> (Inl ListDirError, w)
      | Some filenames \<Rightarrow>
          (case scan_plugins w filenames [] of
             Inl e \<Rightarrow> (Inl e, w)
           | Inr plugins_data \<Rightarrow>
               if open_output_fails w then (Inl OpenError, w)
               else
                 (case write_fails_after w of
                    Some k \<Rightarrow>
                      (Inl WriteError,
                       w\<lparr> file_text :=
                            (file_text w)(OUTPUT_FILE \<mapsto> take k (json_dumps plugins_data)) \<rparr>)
                  | None \<Rightarrow>
                      (case print_fails_after w of
                         Some k \<Rightarrow>
                           (Inl PrintError,
                            w\<lparr> file_text := (file_text w)(OUTPUT_FILE \<mapsto> json_dumps plugins_data),
                               stdout := stdout w @
                                 take k (summary_line (length plugins_data) @ [10]) \<rparr>)
                       | None \<Rightarrow>
                           (Inr (),
                            w\<lparr> file_text := (file_text w)(OUTPUT_FILE \<mapsto> json_dumps plugins_data),
                               stdout := stdout w @
                                 summary_line (length plugins_data) @ [10] \<rparr>)))))"

section \<open>Reading the manifest back: \<open>json.load\<close>\<close>

text \<open>
  The reader of the manifest is the decoder of the same library (its C scanner, which
  Python uses by default). A value is a string, an array, an object or one of the three
  named constants; numbers do not occur in what the script writes and this model reports
  them as an error. Blanks between tokens are spaces, tabs, line feeds and carriage
  returns.
\<close>

datatype json = JNull | JBool bool | JString str | JArray "json list" | JObject "(str \<times> json) list"

text \<open>
  A string ends at the first double quote that no backslash escapes. A control character
  is an error. After \<open>\u\<close> come four hexadecimal digits, and one more character
  must follow them; a high surrogate that is followed by a second \<open>\uXXXX\<close> escape
  (and one more character) joins with it when that is a low surrogate.
\<close>

definition hexval :: "codepoint \<Rightarrow> nat option" where
  "hexval c =
     (if 48 \<le> c \<and> c \<le> 57 then Some (c - 48)
      else if 97 \<le> c \<and> c \<le> 102 then Some (c - 87)
      else if 65 \<le> c \<and> c \<le> 70 then Some (c - 55)
      else None)"

fun decode_uXXXX :: "str \<Rightarrow> nat option" where
  "decode_uXXXX (a # b # c # d # rest) =
     (case (hexval a, hexval b, hexval c, hexval d) of
        (Some x3, Some x2, Some x1, Some x0) \<Rightarrow> Some (((x3 * 16 + x2) * 16 + x1) * 16 + x0)
      | _ \<Rightarrow> None)"
| "decode_uXXXX _ = None"

definition unescape :: "codepoint \<Rightarrow> codepoint option" where
  "unescape e =
     (if e = 0x22 \<or> e = 0x5C \<or> e = 0x2F then Some e
      else if e = 0x62 then Some 8
      else if e = 0x66 then Some 12
      else if e = 0x6E then Some 10
      else if e = 0x72 then Some 13
      else if e = 0x74 then Some 9
      else None)"

function scanstring :: "str \<Rightarrow> str \<Rightarrow> (str \<times> str) option" where
  "scanstring acc [] = None"
| "scanstring acc (c # cs) =
     (if c = 0x22 then Some (acc, cs)
      else if c = 0x5C then
        (case cs of
           [] \<Rightarrow> None
         | esc # es \<Rightarrow>
             if esc = 0x75 then
               (if length es \<le> 4 then None
                else case decode_uXXXX es of
                  None \<Rightarrow> None
                | Some uni \<Rightarrow>
                    if 0xD800 \<le> uni \<and> uni \<le> 0xDBFF \<and> 6 < length (drop 4 es) \<and>
                       prefix [0x5C, 0x75] (drop 4 es)
                    then
                      (case decode_uXXXX (drop 6 es) of
                         None \<Rightarrow> None
                       | Some uni2 \<Rightarrow>
                           if 0xDC00 \<le> uni2 \<and> uni2 \<le> 0xDFFF
                           then scanstring
                                  (acc @ [0x10000 + ((uni - 0xD800) * 1024 + (uni2 - 0xDC00))])
                                  (drop 10 es)
                           else scanstring (acc @ [uni]) (drop 4 es))
                    else scanstring (acc @ [uni]) (drop 4 es))
             else
               (case unescape esc of
                  None \<Rightarrow> None
                | Some ch \<Rightarrow> scanstring (acc @ [ch]) es))
      else if c \<le> 0x1F then None
      else scanstring (acc @ [c]) cs)"
  by pat_completeness auto
termination
  by (relation "measure (\<lambda>(acc, s). length s)") auto

declare scanstring.simps [simp del]

text \<open>
  An object becomes a dictionary: a key that comes again keeps its place and takes the
  new value.
\<close>

fun dict_set :: "(str \<times> json) list \<Rightarrow> str \<Rightarrow> json \<Rightarrow> (str \<times> json) list" where
  "dict_set [] k v = [(k, v)]"
| "dict_set ((k', v') # d) k v = (if k' = k then (k, v) # d else (k', v') # dict_set d k v)"

definition dict_items :: "(str \<times> json) list \<Rightarrow> (str \<times> json) list" where
  "dict_items pairs = foldl (\<lambda>d (k, v). dict_set d k v) [] pairs"

definition is_whitespace :: "codepoint \<Rightarrow> bool" where
  "is_whitespace c \<longleftrightarrow> c = 0x20 \<or> c = 0x09 \<or> c = 0x0A \<or> c = 0x0D"

definition skip_whitespace :: "str \<Rightarrow> str" where
  "skip_whitespace = dropWhile is_whitespace"

text \<open>
  The scanner proper. The recursion of the decoder is on the nesting of the text; here it
  is bounded by a counter that every call decreases. \<open>parse_array\<close> and
  \<open>parse_object\<close> are the loops over the elements, entered after the opening bracket
  and the blanks that follow it.
\<close>

fun scan_once :: "nat \<Rightarrow> str \<Rightarrow> (json \<times> str) option"
  and parse_array :: "nat \<Rightarrow> json list \<Rightarrow> str \<Rightarrow> (json list \<times> str) option"
  and parse_object :: "nat \<Rightarrow> (str \<times> json) list \<Rightarrow> str \<Rightarrow> ((str \<times> json) list \<times> str) option"
where
  "scan_once 0 s = None"
| "scan_once (Suc n) [] = None"
| "scan_once (Suc n) (c # cs) =
     (if c = 0x22 then
        (case scanstring [] cs of None \<Rightarrow> None | Some (v, r) \<Rightarrow> Some (JString v, r))
      else if c = 0x7B then
        (case skip_whitespace cs of
           [] \<Rightarrow> None
         | d # ds \<Rightarrow>
             if d = 0x7D then Some (JObject [], ds)
             else (case parse_object n [] (d # ds) of
                     None \<Rightarrow> None
                   | Some (pairs, r) \<Rightarrow> Some (JObject (dict_items pairs), r)))
      else if c = 0x5B then
        (case skip_whitespace cs of
           [] \<Rightarrow> None
         | d # ds \<Rightarrow>
             if d = 0x5D then Some (JArray [], ds)
             else (case parse_array n [] (d # ds) of
                     None \<Rightarrow> None
                   | Some (vals, r) \<Rightarrow> Some (JArray vals, r)))
      else if prefix (lit ''null'') (c # cs) then Some (JNull, drop 4 (c # cs))
      else if prefix (lit ''true'') (c # cs) then Some (JBool True, drop 4 (c # cs))
      else if prefix (lit ''false'') (c # cs) then Some (JBool False, drop 5 (c # cs))
      else None)"
| "parse_array 0 vals s = None"
| "parse_array (Suc n) vals s =
     (case scan_once n s of
        None \<Rightarrow> None
      | Some (v, r) \<Rightarrow>
          (case skip_whitespace r of
             [] \<Rightarrow> None
           | d # ds \<Rightarrow>
               if d = 0x5D then Some (vals @ [v], ds)
               else if d = 0x2C then parse_array n (vals @ [v]) (skip_whitespace ds)
               else None))"
| "parse_object 0 pairs s = None"
| "parse_object (Suc n) pairs [] = None"
| "parse_object (Suc n) pairs (c # cs) =
     (if c \<noteq> 0x22 then None
      else case scanstring [] cs of
        None \<Rightarrow> None
      | Some (key, r) \<Rightarrow>
          (case skip_whitespace r of
             [] \<Rightarrow> None
           | d # ds \<Rightarrow>
               if d \<noteq> 0x3A then None
               else case scan_once n (skip_whitespace ds) of
                 None \<Rightarrow> None
               | Some (v, r') \<Rightarrow>
                   (case skip_whitespace r' of
                      [] \<Rightarrow> None
                    | e # es \<Rightarrow>
                        if e = 0x7D then Some (pairs @ [(key, v)], es)
                        else if e = 0x2C then parse_object n (pairs @ [(key, v)]) (skip_whitespace es)
                        else None)))"

text \<open>
  \<open>json.loads\<close>: blanks, one value, blanks, and nothing more. Of two calls that
  follow one another at least one reads a character before it calls, so twice the
  length of the text bounds the depth that the counter has to cover.
\<close>

definition json_loads :: "str \<Rightarrow> json option" where
  "json_loads s =
     (case scan_once (2 * length s + 2) (skip_whitespace s) of
        None \<Rightarrow> None
      | Some (v, r) \<Rightarrow> if skip_whitespace r = [] then Some v else None)"

section \<open>Notions used to state the properties\<close>

text \<open>
  A candidate is a directory entry the loop reads; a listing is readable when every
  candidate can be read; a file qualifies when it is a candidate whose text has all four
  fields; \<open>plugin_of\<close> is the record the loop appends for it.
\<close>

definition candidate :: "str \<Rightarrow> bool" where
  "candidate filename \<longleftrightarrow> endswith filename (lit ''.py'')"

definition plugin_path :: "str \<Rightarrow> str" where
  "plugin_path filename = path_join PLUGIN_DIR filename"

definition readable :: "world \<Rightarrow> str list \<Rightarrow> bool" where
  "readable w filenames \<longleftrightarrow>
     list_all (\<lambda>f. candidate f \<longrightarrow> file_text w (plugin_path f) \<noteq> None) filenames"

definition qualifies :: "world \<Rightarrow> str \<Rightarrow> bool" where
  "qualifies w filename \<longleftrightarrow>
     candidate filename \<and>
     (case file_text w (plugin_path filename) of
        None \<Rightarrow> False
      | Some content \<Rightarrow> has_all_fields (meta_matches content))"

definition plugin_of :: "world \<Rightarrow> str \<Rightarrow> plugin" where
  "plugin_of w filename =
     make_plugin filename (meta_matches (the (file_text w (plugin_path filename))))"

text \<open>A small directory for the concrete instances: the scenario of the specification, a
  file without a version, and an entry that is not a plugin.\<close>

definition demo_content :: str where
  \<open>demo_content =
     lit ''__plugin_name__ = "Money Converter"'' @ [10] @
     lit ''__plugin_author__ = "Ayden"'' @ [10] @
     lit ''__plugin_version__ = "1.1"'' @ [10] @
     lit ''__plugin_description__ = "Convert currencies..."'' @ [10]\<close>

definition demo_partial :: str where
  \<open>demo_partial =
     lit ''__plugin_name__ = "Draft"'' @ [10] @
     lit ''__plugin_author__ = "Ayden"'' @ [10] @
     lit ''__plugin_description__ = 'No version yet'' @ [39, 10]\<close>

definition demo_world :: world where
  "demo_world =
     \<lparr> listdir = Some [lit ''draft.py'', lit ''notes.txt'', lit ''CurrencyConverter.py''],
       file_text = [lit ''plugins/draft.py'' \<mapsto> demo_partial,
                    lit ''plugins/CurrencyConverter.py'' \<mapsto> demo_content],
       open_output_fails = False,
       write_fails_after = None,
       print_fails_after = None,
       stdout = [] \<rparr>"


text \<open>
  No attempt of the pattern that starts in \<open>pre\<close> reaches into the text \<open>s\<close> that
  follows it: each attempt fails or ends within \<open>pre\<close>.
\<close>

fun clear_before :: "str \<Rightarrow> str \<Rightarrow> bool" where
  "clear_before [] s = True"
| "clear_before (c # cs) s =
     ((case metadata_pattern (c # cs @ s) of
         None \<Rightarrow> True
       | Some (g1, g2, rest) \<Rightarrow> length s \<le> length rest) \<and>
      clear_before cs s)"

text \<open>Texts for the concrete instances of the properties of the pattern.\<close>

definition demo_duplicate :: str where
  "demo_duplicate = demo_content @ lit ''__plugin_version__ = '2.0'' @ [39, 10]"

definition empty_name_content :: str where
  "empty_name_content =
     lit ''__plugin_name__ = '' @ [34, 34] @ lit '' or '' @ [34] @ lit ''Untitled'' @ [34, 10] @
     lit ''__plugin_author__ = '' @ [34] @ lit ''Ayden'' @ [34, 10] @
     lit ''__plugin_version__ = '' @ [34] @ lit ''1.0'' @ [34, 10] @
     lit ''__plugin_description__ = '' @ [34] @ lit ''No name'' @ [34, 10]"

definition empty_name_only :: str where
  "empty_name_only =
     lit ''# draft'' @ [10] @
     lit ''__plugin_name__ = '' @ [34, 34, 10] @
     lit ''__plugin_author__ = '' @ [34] @ lit ''Ayden'' @ [34, 10]"

text \<open>
  What the decoder returns for the escaped form of a string: the string itself, except
  that a high surrogate followed by a low one is read as the code point of the pair
  (and a number that is no code point is cut to one).
\<close>

definition is_high :: "codepoint \<Rightarrow> bool" where
  "is_high c \<longleftrightarrow> 0xD800 \<le> c \<and> c \<le> 0xDBFF"

definition is_low :: "codepoint \<Rightarrow> bool" where
  "is_low c \<longleftrightarrow> 0xDC00 \<le> c \<and> c \<le> 0xDFFF"

definition rejoined :: "codepoint \<Rightarrow> codepoint" where
  "rejoined c =
     (if c < 0x10000 then c
      else 0x10000 + ((c - 0x10000) div 1024 mod 1024 * 1024 + (c - 0x10000) mod 1024))"

fun decoded :: "str \<Rightarrow> str" where
  "decoded [] = []"
| "decoded [c] = [rejoined c]"
| "decoded (c # d # cs) =
     (if is_high c \<and> is_low d
      then (0x10000 + ((c - 0xD800) * 1024 + (d - 0xDC00))) # decoded cs
      else rejoined c # decoded (d # cs))"

text \<open>The text after a high surrogate makes the decoder join it, or fail.\<close>

definition merges :: "str \<Rightarrow> bool" where
  "merges t \<longleftrightarrow>
     6 < length t \<and> prefix [0x5C, 0x75] t \<and>
     (case decode_uXXXX (drop 2 t) of None \<Rightarrow> True | Some u \<Rightarrow> is_low u)"

text \<open>The value read back for one record.\<close>

definition plugin_json :: "plugin \<Rightarrow> json" where
  "plugin_json p =
     JObject
       [(lit ''name'', JString (decoded (name p))),
        (lit ''author'', JString (decoded (author p))),
        (lit ''version'', JString (decoded (version p))),
        (lit ''description'', JString (decoded (description p))),
        (lit ''icon_url'', JString (decoded (icon_url p))),
        (lit ''download_url'', JString (decoded (download_url p)))]"

definition nat_of_str :: "str \<Rightarrow> nat" where
  "nat_of_str s = foldl (\<lambda>a d. 10 * a + (d - 48)) 0 s"

text \<open>Two more directories: one with two qualifying files, one with a file that has an
  empty name.\<close>

definition ordered_world :: world where
  "ordered_world =
     \<lparr> listdir = Some [lit ''Grapher.py'', lit ''draft.py'', lit ''CurrencyConverter.py''],
       file_text = [lit ''plugins/Grapher.py'' \<mapsto> demo_duplicate,
                    lit ''plugins/draft.py'' \<mapsto> demo_partial,
                    lit ''plugins/CurrencyConverter.py'' \<mapsto> demo_content],
       open_output_fails = False,
       write_fails_after = None,
       print_fails_after = None,
       stdout = [] \<rparr>"

definition untitled_world :: world where
  "untitled_world =
     \<lparr> listdir = Some [lit ''untitled.py''],
       file_text = [lit ''plugins/untitled.py'' \<mapsto> empty_name_only],
       open_output_fails = False,
       write_fails_after = None,
       print_fails_after = None,
       stdout = [] \<rparr>"

text \<open>A directory with a plugin whose name has \<open>.py\<close> twice.\<close>

definition pyfile_world :: world where
  "pyfile_world =
     \<lparr> listdir = Some [lit ''my.pyfile.py''],
       file_text = [lit ''plugins/my.pyfile.py'' \<mapsto> demo_content],
       open_output_fails = False,
       write_fails_after = None,
       print_fails_after = None,
       stdout = [] \<rparr>"


section \<open>Properties of the loop and of the dictionary\<close>

lemma scan_plugins_Inr:
  "scan_plugins w filenames acc = Inr plugins_data \<Longrightarrow>
     readable w filenames \<and>
     plugins_data = acc @ map (plugin_of w) (filter (qualifies w) filenames)"
proof (induction filenames arbitrary: acc)
  case Nil
  then show ?case by (simp add: readable_def)
next
  case (Cons f fs)
  show ?case
  proof (cases "candidate f")
    case False
    with Cons.prems have "scan_plugins w fs acc = Inr plugins_data"
      by (simp add: candidate_def)
    from Cons.IH [OF this] False show ?thesis
      by (simp add: readable_def qualifies_def)
  next
    case True
    with Cons.prems obtain content where c: "file_text w (plugin_path f) = Some content"
      by (auto simp: candidate_def plugin_path_def Let_def split: option.splits)
    show ?thesis
    proof (cases "has_all_fields (meta_matches content)")
      case True
      with \<open>candidate f\<close> c Cons.prems
      have "scan_plugins w fs (acc @ [plugin_of w f]) = Inr plugins_data"
        by (simp add: candidate_def plugin_path_def plugin_of_def Let_def)
      from Cons.IH [OF this] True \<open>candidate f\<close> c show ?thesis
        by (simp add: readable_def qualifies_def)
    next
      case False
      with \<open>candidate f\<close> c Cons.prems
      have "scan_plugins w fs acc = Inr plugins_data"
        by (simp add: candidate_def plugin_path_def Let_def)
      from Cons.IH [OF this] False \<open>candidate f\<close> c show ?thesis
        by (simp add: readable_def qualifies_def)
    qed
  qed
qed

lemma scan_plugins_readable:
  "readable w filenames \<Longrightarrow>
     scan_plugins w filenames acc = Inr (acc @ map (plugin_of w) (filter (qualifies w) filenames))"
proof (induction filenames arbitrary: acc)
  case Nil
  then show ?case by simp
next
  case (Cons f fs)
  then have r: "readable w fs" and f: "candidate f \<longrightarrow> file_text w (plugin_path f) \<noteq> None"
    by (simp_all add: readable_def)
  show ?case
  proof (cases "candidate f")
    case False
    with Cons.IH [OF r] show ?thesis
      by (simp add: candidate_def qualifies_def)
  next
    case True
    with f obtain content where c: "file_text w (plugin_path f) = Some content"
      by auto
    with True Cons.IH [OF r] show ?thesis
      by (simp add: candidate_def qualifies_def plugin_path_def plugin_of_def Let_def)
  qed
qed


lemma dict_foldl:
  "foldl (\<lambda>m (k, v). m(k \<mapsto> v)) m0 ps = m0 ++ map_of (rev ps)"
  by (induction ps arbitrary: m0) (auto simp: map_add_upd_left fun_eq_iff map_add_def split: option.splits)

lemma dict_map_of: "dict ps = map_of (rev ps)"
  by (simp add: dict_def dict_foldl)

lemma dict_None: "dict ps k = None \<longleftrightarrow> k \<notin> fst ` set ps"
  by (simp add: dict_map_of map_of_eq_None_iff)

lemma dict_last:
  "k \<notin> fst ` set after \<Longrightarrow> dict (before @ (k, v) # after) k = Some v"
  by (simp add: dict_map_of map_add_def map_of_eq_None_iff [THEN iffD2] split: option.splits)

lemma has_all_fields_iff:
  "has_all_fields (meta_matches content) \<longleftrightarrow> set field_names \<subseteq> fst ` set (findall content)"
  by (auto simp: has_all_fields_def meta_matches_def list_all_iff dict_None)

lemma make_download_url_inj:
  "make_download_url f = make_download_url g \<longleftrightarrow> f = g"
  by (simp add: make_download_url_def)

lemma download_url_plugin_of: "download_url (plugin_of w f) = make_download_url f"
  by (simp add: plugin_of_def make_plugin_def)

lemma filter_eq_distinct:
  "distinct xs \<Longrightarrow> x \<in> set xs \<Longrightarrow> P x \<Longrightarrow> filter (\<lambda>y. P y \<and> y = x) xs = [x]"
  by (induction xs) (auto simp: filter_empty_conv)

lemma main_success:
  assumes "listdir w = Some filenames" "readable w filenames" "output_writable w"
  shows "main w =
     (Inr (),
      w\<lparr> file_text := (file_text w)(OUTPUT_FILE \<mapsto>
            json_dumps (map (plugin_of w) (filter (qualifies w) filenames))),
         stdout := stdout w @ summary_line (length (filter (qualifies w) filenames)) @ [10] \<rparr>)"
  using assms by (simp add: main_def output_writable_def scan_plugins_readable)

lemma has_all_fields_lookup:
  assumes "has_all_fields m"
  shows "m (lit ''name'') = Some (name (make_plugin f m))"
    "m (lit ''author'') = Some (author (make_plugin f m))"
    "m (lit ''version'') = Some (version (make_plugin f m))"
    "m (lit ''description'') = Some (description (make_plugin f m))"
  using assms by (auto simp: has_all_fields_def field_names_def make_plugin_def)

lemma findall_demo_content:
  "findall demo_content =
     [(lit ''name'', lit ''Money Converter''), (lit ''author'', lit ''Ayden''),
      (lit ''version'', lit ''1.1''), (lit ''description'', lit ''Convert currencies...'')]"
  by (simp add: demo_content_def lit_def metadata_pattern_def field_names_def isspace_def is_quote_def not_newline_def)

lemma findall_demo_partial:
  "findall demo_partial =
     [(lit ''name'', lit ''Draft''), (lit ''author'', lit ''Ayden''),
      (lit ''description'', lit ''No version yet'')]"
  by (simp add: demo_partial_def lit_def metadata_pattern_def field_names_def isspace_def is_quote_def not_newline_def)

lemmas path_defs = candidate_def plugin_path_def path_join_def endswith_def PLUGIN_DIR_def

lemma demo_listdir:
  "listdir demo_world = Some [lit ''draft.py'', lit ''notes.txt'', lit ''CurrencyConverter.py'']"
  by (simp add: demo_world_def)

lemma demo_file_text:
  "file_text demo_world (path_join PLUGIN_DIR (lit ''CurrencyConverter.py'')) = Some demo_content"
  "file_text demo_world (path_join PLUGIN_DIR (lit ''draft.py'')) = Some demo_partial"
  by (simp_all add: demo_world_def path_defs lit_def)

lemma demo_readable:
  "readable demo_world [lit ''draft.py'', lit ''notes.txt'', lit ''CurrencyConverter.py'']"
  by (simp add: readable_def demo_world_def path_defs lit_def)

lemma demo_content_fields: "set field_names \<subseteq> fst ` set (findall demo_content)"
  by (simp add: findall_demo_content field_names_def)

lemma demo_partial_version: "lit ''version'' \<notin> fst ` set (findall demo_partial)"
  by (simp add: findall_demo_partial lit_def)

lemma scan_plugins_listdir:
  "scan_plugins (w\<lparr>listdir := l\<rparr>) filenames acc = scan_plugins w filenames acc"
  by (induction filenames arbitrary: acc) (simp_all add: Let_def split: option.splits)

lemma scan_plugins_skip:
  assumes "\<not> qualifies w filename"
    and "candidate filename \<longrightarrow> file_text w (plugin_path filename) \<noteq> None"
  shows "scan_plugins w (before @ filename # after) acc = scan_plugins w (before @ after) acc"
proof (induction before arbitrary: acc)
  case Nil
  from assms show ?case
    by (auto simp: qualifies_def candidate_def plugin_path_def Let_def split: option.splits)
next
  case (Cons f fs)
  then show ?case
    by (simp add: Let_def split: option.splits)
qed

lemma demo_qualifying:
  "filter (qualifies demo_world) [lit ''draft.py'', lit ''notes.txt'', lit ''CurrencyConverter.py'']
     = [lit ''CurrencyConverter.py'']"
proof -
  have "\<not> qualifies demo_world (lit ''draft.py'')"
    using demo_file_text(2) demo_partial_version
    by (auto simp: qualifies_def plugin_path_def has_all_fields_iff field_names_def)
  moreover have "\<not> qualifies demo_world (lit ''notes.txt'')"
    by (simp add: qualifies_def path_defs lit_def)
  moreover have "qualifies demo_world (lit ''CurrencyConverter.py'')"
    using demo_file_text(1) demo_content_fields
    by (simp add: qualifies_def plugin_path_def has_all_fields_iff) (simp add: path_defs lit_def)
  ultimately show ?thesis by simp
qed

lemma main_listdir:
  assumes "scan_plugins w xs [] = scan_plugins w ys []"
  shows "fst (main (w\<lparr>listdir := Some xs\<rparr>)) = fst (main (w\<lparr>listdir := Some ys\<rparr>)) \<and>
         file_text (snd (main (w\<lparr>listdir := Some xs\<rparr>))) = file_text (snd (main (w\<lparr>listdir := Some ys\<rparr>))) \<and>
         stdout (snd (main (w\<lparr>listdir := Some xs\<rparr>))) = stdout (snd (main (w\<lparr>listdir := Some ys\<rparr>)))"
  using assms by (simp add: main_def scan_plugins_listdir split: sum.splits option.splits)

lemma summary_line_0:
  "summary_line 0 = [0x2705] @ lit '' Generated plugins.json with 0 plugins.''"
  by (simp add: summary_line_def OUTPUT_FILE_def lit_def str_of_nat.simps [of 0])

lemma replace_py_only_suffix:
  assumes "\<forall>i<length stem. \<not> prefix (lit ''.py'') (drop i (stem @ lit ''.py''))"
  shows "replace (lit ''.py'') (lit ''.png'') (stem @ lit ''.py'') = stem @ lit ''.png''"
  using assms
proof (induction stem)
  case Nil
  then show ?case by (simp add: lit_def)
next
  case (Cons c cs)
  have l: "lit ''.py'' = 46 # [112, 121]"
    by (simp add: lit_def)
  from Cons.prems have "\<not> prefix (lit ''.py'') (drop 0 ((c # cs) @ lit ''.py''))"
    by blast
  then have np: "\<not> prefix (46 # [112, 121]) (c # (cs @ lit ''.py''))"
    by (simp add: l)
  have "\<forall>i<length cs. \<not> prefix (lit ''.py'') (drop i (cs @ lit ''.py''))"
  proof (intro allI impI)
    fix i assume "i < length cs"
    then have "Suc i < length (c # cs)" by simp
    with Cons.prems have "\<not> prefix (lit ''.py'') (drop (Suc i) ((c # cs) @ lit ''.py''))"
      by blast
    then show "\<not> prefix (lit ''.py'') (drop i (cs @ lit ''.py''))" by simp
  qed
  from Cons.IH [OF this]
  have ih: "replace (46 # [112, 121]) (lit ''.png'') (cs @ lit ''.py'') = cs @ lit ''.png''"
    by (simp add: l)
  have "replace (46 # [112, 121]) (lit ''.png'') (c # (cs @ lit ''.py'')) =
        c # replace (46 # [112, 121]) (lit ''.png'') (cs @ lit ''.py'')"
    using np by (simp only: replace.simps if_False)
  with ih show ?case
    by (simp add: l)
qed

section \<open>Properties of the pattern and of the scan\<close>

lemma literal_append: "literal p k (p @ s) = k s"
  by (induction p) simp_all

lemma alternatives_field:
  assumes "f \<in> set field_names"
  shows "alternatives field_names k (f @ s) = k f s"
proof -
  from assms consider "f = lit ''name''" | "f = lit ''author''" | "f = lit ''version''"
    | "f = lit ''description''"
    by (auto simp: field_names_def)
  then show ?thesis
  proof cases
    case 1
    have "literal (lit ''name'') (k (lit ''name'')) (lit ''name'' @ s) = k (lit ''name'') s"
      by (rule literal_append)
    then show ?thesis
      unfolding 1 field_names_def by (cases "k (lit ''name'') s") (simp_all add: lit_def)
  next
    case 2
    have "literal (lit ''author'') (k (lit ''author'')) (lit ''author'' @ s) = k (lit ''author'') s"
      by (rule literal_append)
    then show ?thesis
      unfolding 2 field_names_def by (cases "k (lit ''author'') s") (simp_all add: lit_def)
  next
    case 3
    have "literal (lit ''version'') (k (lit ''version'')) (lit ''version'' @ s) = k (lit ''version'') s"
      by (rule literal_append)
    then show ?thesis
      unfolding 3 field_names_def by (cases "k (lit ''version'') s") (simp_all add: lit_def)
  next
    case 4
    have "literal (lit ''description'') (k (lit ''description'')) (lit ''description'' @ s) =
        k (lit ''description'') s"
      by (rule literal_append)
    then show ?thesis
      unfolding 4 field_names_def by (cases "k (lit ''description'') s") (simp_all add: lit_def)
  qed
qed

text \<open>
  When the continuation cannot start with a character of the class, the greedy star has
  one way to succeed only: it takes the whole run.
\<close>

lemma greedy_star_dropWhile:
  assumes "\<And>c cs. P c \<Longrightarrow> k (c # cs) = None"
  shows "greedy_star P k s = k (dropWhile P s)"
proof (induction s)
  case Nil
  show ?case by simp
next
  case (Cons c cs)
  show ?case
  proof (cases "P c")
    case True
    with assms have "k (c # cs) = None" by simp
    with True Cons.IH show ?thesis
      by (cases "k (dropWhile P cs)") simp_all
  next
    case False
    then show ?thesis by simp
  qed
qed

lemma greedy_star_run:
  assumes "\<And>c cs. P c \<Longrightarrow> k (c # cs) = None" and "list_all P ws" and "\<not> P x"
  shows "greedy_star P k (ws @ x # s) = k (x # s)"
proof -
  from assms(2,3) have "dropWhile P (ws @ x # s) = x # s"
    by (induction ws) simp_all
  with greedy_star_dropWhile [of P k, OF assms(1)] show ?thesis
    by simp
qed

lemma literal_eq_space: "isspace c \<Longrightarrow> literal (lit ''='') k (c # cs) = None"
  by (auto simp: lit_def isspace_def)

lemma char_class_quote_space: "isspace c \<Longrightarrow> char_class is_quote k (c # cs) = None"
  by (auto simp: isspace_def is_quote_def)

lemma quote_not_space: "is_quote q \<Longrightarrow> \<not> isspace q"
  by (auto simp: isspace_def is_quote_def)

text \<open>The lazy repetition in front of the closing quote ends at the first quote it meets.\<close>

lemma lazy_star_value:
  assumes "list_all (\<lambda>x. not_newline x \<and> \<not> is_quote x) v" and "is_quote q"
  shows "lazy_star not_newline acc (\<lambda>g2. char_class is_quote (\<lambda>rest. Some (g1, g2, rest)))
           (v @ q # rest) = Some (g1, acc @ v, rest)"
  using assms(1)
proof (induction v arbitrary: acc)
  case Nil
  with assms(2) show ?case by simp
next
  case (Cons c cs)
  then have "list_all (\<lambda>x. not_newline x \<and> \<not> is_quote x) cs" and c: "not_newline c" "\<not> is_quote c"
    by simp_all
  from Cons.IH [OF this(1), of "acc @ [c]"] c show ?case
    by simp
qed

lemma lazy_star_no_quote:
  assumes "\<not> list_ex is_quote (takeWhile not_newline s)"
  shows "lazy_star not_newline acc (\<lambda>g2. char_class is_quote (\<lambda>rest. Some (g1, g2, rest))) s = None"
  using assms
proof (induction s arbitrary: acc)
  case Nil
  show ?case by simp
next
  case (Cons c cs)
  show ?case
  proof (cases "not_newline c")
    case True
    with Cons.prems have "\<not> is_quote c" "\<not> list_ex is_quote (takeWhile not_newline cs)"
      by simp_all
    with Cons.IH [of "acc @ [c]"] True show ?thesis
      by simp
  next
    case False
    then have "\<not> is_quote c"
      by (auto simp: not_newline_def is_quote_def)
    with False show ?thesis by simp
  qed
qed

lemma lit_eq: "lit ''='' = [61]"
  by (simp add: lit_def)

lemma metadata_pattern_tail:
  assumes "f \<in> set field_names" "list_all isspace ws1" "list_all isspace ws2" "is_quote q1"
  shows "metadata_pattern (lit ''__plugin_'' @ f @ lit ''__'' @ ws1 @ lit ''='' @ ws2 @ q1 # s) =
         lazy_plus not_newline (\<lambda>g2. char_class is_quote (\<lambda>rest. Some (f, g2, rest))) s"
proof -
  have 1: "greedy_star isspace (char_class is_quote k) (ws2 @ q1 # s) = k s"
    for k :: "str \<Rightarrow> (str \<times> str \<times> str) option"
  proof -
    have "greedy_star isspace (char_class is_quote k) (ws2 @ q1 # s) =
          char_class is_quote k (q1 # s)"
      using assms(3) quote_not_space [OF assms(4)]
      by (intro greedy_star_run char_class_quote_space)
    with assms(4) show ?thesis by simp
  qed
  have 2: "greedy_star isspace (literal (lit ''='') k) (ws1 @ lit ''='' @ t) = k t"
    for k :: "str \<Rightarrow> (str \<times> str \<times> str) option" and t
  proof -
    have "\<not> isspace 61"
      by (simp add: isspace_def)
    with assms(2) have "greedy_star isspace (literal (lit ''='') k) (ws1 @ 61 # t) =
          literal (lit ''='') k (61 # t)"
      by (intro greedy_star_run literal_eq_space)
    then show ?thesis by (simp add: lit_eq)
  qed
  show ?thesis
    unfolding metadata_pattern_def
    by (simp only: literal_append alternatives_field [OF assms(1)] 1 2)
qed

lemma metadata_pattern_occurrence:
  assumes "f \<in> set field_names" "list_all isspace ws1" "list_all isspace ws2" "is_quote q1"
    and "not_newline c" "list_all (\<lambda>x. not_newline x \<and> \<not> is_quote x) v" "is_quote q2"
  shows "metadata_pattern
           (lit ''__plugin_'' @ f @ lit ''__'' @ ws1 @ lit ''='' @ ws2 @ q1 # c # v @ q2 # rest) =
         Some (f, c # v, rest)"
  using lazy_star_value [OF assms(6,7), of "[c]" f rest] assms(5)
  by (simp add: metadata_pattern_tail [OF assms(1-4)])

lemma metadata_pattern_empty_value:
  assumes "f \<in> set field_names" "list_all isspace ws1" "list_all isspace ws2" "is_quote q1"
    and "\<not> list_ex is_quote (takeWhile not_newline tail)"
  shows "metadata_pattern
           (lit ''__plugin_'' @ f @ lit ''__'' @ ws1 @ lit ''='' @ ws2 @ q1 # q2 # tail) = None"
  using lazy_star_no_quote [OF assms(5), of "[q2]" f]
  by (simp add: metadata_pattern_tail [OF assms(1-4)])

lemma metadata_pattern_suffix:
  assumes "metadata_pattern s = Some (g1, g2, rest)"
  shows "\<exists>x. x \<noteq> [] \<and> s = x @ rest"
proof -
  from metadata_pattern_Some [OF assms] obtain ws1 ws2 q1 q2 where
    s: "s = lit ''__plugin_'' @ g1 @ lit ''__'' @ ws1 @ lit ''='' @ ws2 @ q1 # g2 @ q2 # rest"
    by auto
  let ?x = "lit ''__plugin_'' @ g1 @ lit ''__'' @ ws1 @ lit ''='' @ ws2 @ q1 # g2 @ [q2]"
  have "?x \<noteq> []"
    by (simp add: lit_def)
  moreover have "s = ?x @ rest"
    by (simp add: s)
  ultimately show ?thesis
    by (intro exI [of _ ?x] conjI)
qed

lemma findall_in:
  "(k, v) \<in> set (findall s) \<Longrightarrow>
     \<exists>i rest. i < length s \<and> metadata_pattern (drop i s) = Some (k, v, rest)"
proof (induction s rule: findall.induct)
  case 1
  then show ?case by simp
next
  case (2 c cs)
  show ?case
  proof (cases "metadata_pattern (c # cs)")
    case None
    with "2.prems" have "(k, v) \<in> set (findall cs)" by simp
    from "2.IH"(1) [OF None this] obtain i rest where
      "i < length cs" "metadata_pattern (drop i cs) = Some (k, v, rest)" by blast
    then have "Suc i < length (c # cs) \<and> metadata_pattern (drop (Suc i) (c # cs)) = Some (k, v, rest)"
      by simp
    then show ?thesis by blast
  next
    case (Some r)
    then obtain g1 g2 rest where r: "metadata_pattern (c # cs) = Some (g1, g2, rest)"
      by (cases r) auto
    with "2.prems" consider "(k, v) = (g1, g2)" | "(k, v) \<in> set (findall rest)"
      by auto
    then show ?thesis
    proof cases
      case 1
      with r have "0 < length (c # cs) \<and> metadata_pattern (drop 0 (c # cs)) = Some (k, v, rest)"
        by simp
      then show ?thesis by blast
    next
      case 2
      from "2.IH"(2) [OF r refl refl 2] obtain i rest' where
        i: "i < length rest" "metadata_pattern (drop i rest) = Some (k, v, rest')" by blast
      from metadata_pattern_suffix [OF r] obtain x where x: "c # cs = x @ rest" by blast
      have "drop (length x + i) (x @ rest) = drop i rest"
        by simp
      moreover from i(1) have "length x + i < length (x @ rest)"
        by simp
      ultimately have "length x + i < length (c # cs) \<and>
          metadata_pattern (drop (length x + i) (c # cs)) = Some (k, v, rest')"
        unfolding x using i(2) by (simp only:)
      then show ?thesis by blast
    qed
  qed
qed

lemma clear_before_drop: "clear_before pre s \<Longrightarrow> clear_before (drop j pre) s"
proof (induction pre arbitrary: j)
  case Nil
  then show ?case by simp
next
  case (Cons c cs)
  then show ?case by (cases j) simp_all
qed

lemma findall_reaches:
  "clear_before pre s \<Longrightarrow> \<exists>ms. findall (pre @ s) = ms @ findall s"
proof (induction pre rule: length_induct)
  case (1 pre)
  show ?case
  proof (cases pre)
    case Nil
    then show ?thesis by simp
  next
    case (Cons c cs)
    with "1.prems" have cs: "clear_before cs s" by simp
    show ?thesis
    proof (cases "metadata_pattern (pre @ s)")
      case None
      from cs "1.IH" Cons obtain ms where "findall (cs @ s) = ms @ findall s"
        by auto
      with None Cons show ?thesis by simp
    next
      case (Some r)
      then obtain g1 g2 rest where r: "metadata_pattern (pre @ s) = Some (g1, g2, rest)"
        by (cases r) auto
      with "1.prems" Cons have len: "length s \<le> length rest"
        by simp
      from metadata_pattern_suffix [OF r] obtain x where x: "x \<noteq> []" "pre @ s = x @ rest"
        by blast
      from x(2) have "length pre + length s = length x + length rest"
        by (metis length_append)
      with len have lx: "length x \<le> length pre"
        by arith
      from x(2) have "drop (length x) (pre @ s) = rest" by simp
      with lx have rest: "rest = drop (length x) pre @ s" by simp
      from x(1) Cons lx have "length (drop (length x) pre) < length pre"
        by (cases x) auto
      moreover have "clear_before (drop (length x) pre) s"
        by (rule clear_before_drop [OF "1.prems"])
      ultimately obtain ms where "findall (drop (length x) pre @ s) = ms @ findall s"
        using "1.IH" by blast
      with r rest Cons have "findall (pre @ s) = ((g1, g2) # ms) @ findall s"
        by simp
      then show ?thesis by blast
    qed
  qed
qed

lemma metadata_pattern_prefix:
  assumes "metadata_pattern s = Some (k, v, rest)"
  shows "prefix (lit ''__plugin_'' @ k @ lit ''__'') s"
proof -
  from metadata_pattern_Some [OF assms] obtain ws1 ws2 q1 q2 where
    "s = (lit ''__plugin_'' @ k @ lit ''__'') @ ws1 @ lit ''='' @ ws2 @ q1 # v @ q2 # rest"
    by auto
  then show ?thesis
    by (metis prefixI)
qed

lemmas regex_defs = lit_def metadata_pattern_def field_names_def isspace_def is_quote_def
  not_newline_def

lemma findall_demo_duplicate:
  "findall demo_duplicate =
     [(lit ''name'', lit ''Money Converter''), (lit ''author'', lit ''Ayden''),
      (lit ''version'', lit ''1.1''), (lit ''description'', lit ''Convert currencies...'')] @
     (lit ''version'', lit ''2.0'') # []"
  by (simp add: demo_duplicate_def demo_content_def regex_defs)

lemma plugin_items_lookup:
  assumes "has_all_fields m" and "k \<in> set field_names"
  shows "map_of (plugin_items (make_plugin filename m)) k = m k"
proof -
  from assms(2) consider "k = lit ''name''" | "k = lit ''author''" | "k = lit ''version''"
    | "k = lit ''description''"
    by (auto simp: field_names_def)
  then show ?thesis
  proof cases
    case 1
    with has_all_fields_lookup(1) [OF assms(1), of filename] show ?thesis
      by (simp add: plugin_items_def)
  next
    case 2
    with has_all_fields_lookup(2) [OF assms(1), of filename] show ?thesis
      by (simp add: plugin_items_def lit_def)
  next
    case 3
    with has_all_fields_lookup(3) [OF assms(1), of filename] show ?thesis
      by (simp add: plugin_items_def lit_def)
  next
    case 4
    with has_all_fields_lookup(4) [OF assms(1), of filename] show ?thesis
      by (simp add: plugin_items_def lit_def)
  qed
qed

section \<open>Properties of the encoder and the decoder\<close>

lemma hexval_hexdigit: "d < 16 \<Longrightarrow> hexval (hexdigit d) = Some d"
  by (auto simp: hexval_def hexdigit_def)

lemma hex_digits_value:
  fixes n :: nat
  assumes "n < 65536"
  shows "((n div 4096 mod 16 * 16 + n div 256 mod 16) * 16 + n div 16 mod 16) * 16 + n mod 16 = n"
proof -
  from assms have "n div 4096 < 16"
    by simp
  then have 1: "n div 4096 mod 16 = n div 4096"
    by simp
  have "n div 4096 = n div 256 div 16"
    by (simp add: div_mult2_eq [symmetric])
  then have 2: "n div 4096 * 16 + n div 256 mod 16 = n div 256"
    by simp
  have "n div 256 = n div 16 div 16"
    by (simp add: div_mult2_eq [symmetric])
  then have 3: "n div 256 * 16 + n div 16 mod 16 = n div 16"
    by simp
  show ?thesis
    by (simp only: 1 2 3 div_mult_mod_eq)
qed

lemma decode_hex4:
  assumes "n < 65536"
  shows "decode_uXXXX (hex4 n @ r) = Some n"
proof -
  have d: "hexval (hexdigit (n div 4096 mod 16)) = Some (n div 4096 mod 16)"
    "hexval (hexdigit (n div 256 mod 16)) = Some (n div 256 mod 16)"
    "hexval (hexdigit (n div 16 mod 16)) = Some (n div 16 mod 16)"
    "hexval (hexdigit (n mod 16)) = Some (n mod 16)"
    by (simp_all add: hexval_hexdigit)
  show ?thesis
    unfolding hex4_def
    by (simp only: append_Cons append_Nil decode_uXXXX.simps d prod.case option.case
        hex_digits_value [OF assms])
qed

lemma length_hex4: "length (hex4 n) = 4"
  by (simp add: hex4_def)

lemma drop_hex4: "drop 4 (hex4 n @ r) = r"
  by (simp add: hex4_def)

lemma drop_hex4_6: "drop 6 (hex4 n @ a # b # r) = r"
  by (simp add: hex4_def)

lemma drop_hex4_10: "drop 10 (hex4 n @ a # b # hex4 m @ r) = r"
  by (simp add: hex4_def)

lemma hex4_cases: obtains a b c d where "hex4 n = [a, b, c, d]"
  by (simp add: hex4_def)

lemma scan_u_escape:
  assumes "n < 65536" and "t \<noteq> []"
  shows "scanstring acc (0x5C # 0x75 # hex4 n @ t) =
     (if is_high n \<and> 6 < length t \<and> prefix [0x5C, 0x75] t
      then (case decode_uXXXX (drop 2 t) of
              None \<Rightarrow> None
            | Some uni2 \<Rightarrow>
                if is_low uni2
                then scanstring (acc @ [0x10000 + ((n - 0xD800) * 1024 + (uni2 - 0xDC00))]) (drop 6 t)
                else scanstring (acc @ [n]) t)
      else scanstring (acc @ [n]) t)"
proof -
  obtain a b c d where h: "hex4 n = [a, b, c, d]"
    by (rule hex4_cases)
  from decode_hex4 [OF assms(1), of t] have dec: "decode_uXXXX (a # b # c # d # t) = Some n"
    by (simp add: h)
  from assms(2) have len: "\<not> length (a # b # c # d # t) \<le> 4"
    by (cases t) simp_all
  have "scanstring acc (0x5C # 0x75 # a # b # c # d # t) =
     (if is_high n \<and> 6 < length t \<and> prefix [0x5C, 0x75] t
      then (case decode_uXXXX (drop 2 t) of
              None \<Rightarrow> None
            | Some uni2 \<Rightarrow>
                if is_low uni2
                then scanstring (acc @ [0x10000 + ((n - 0xD800) * 1024 + (uni2 - 0xDC00))]) (drop 6 t)
                else scanstring (acc @ [n]) t)
      else scanstring (acc @ [n]) t)"
    using len
    by (simp add: scanstring.simps dec is_high_def is_low_def del: decode_uXXXX.simps
        split: option.splits)
  then show ?thesis
    by (simp add: h)
qed

lemma scan_u_plain:
  assumes "n < 65536" and "t \<noteq> []" and "is_high n \<longrightarrow> \<not> merges t"
  shows "scanstring acc (0x5C # 0x75 # hex4 n @ t) = scanstring (acc @ [n]) t"
  using assms(3) unfolding scan_u_escape [OF assms(1,2)] merges_def
  by (auto split: option.splits)

lemma rejoined_small: "c < 0x10000 \<Longrightarrow> rejoined c = c"
  by (simp add: rejoined_def)

lemma scan_escape_char:
  assumes "t \<noteq> []" and "is_high c \<longrightarrow> \<not> merges t"
  shows "scanstring acc (escape_char c @ t) = scanstring (acc @ [rejoined c]) t"
proof -
  consider (two) "c = 0x5C \<or> c = 0x22 \<or> c = 8 \<or> c = 12 \<or> c = 10 \<or> c = 13 \<or> c = 9"
    | (plain) "0x20 \<le> c" "c \<le> 0x7E" "c \<noteq> 0x5C" "c \<noteq> 0x22"
    | (bmp) "c < 0x10000" "\<not> (0x20 \<le> c \<and> c \<le> 0x7E)" "c \<noteq> 8" "c \<noteq> 12" "c \<noteq> 10" "c \<noteq> 13" "c \<noteq> 9"
    | (astral) "0x10000 \<le> c"
    by linarith
  then show ?thesis
  proof cases
    case two
    then show ?thesis
      by (auto simp: escape_char_def rejoined_def unescape_def scanstring.simps lit_def)
  next
    case plain
    then show ?thesis
      by (simp add: escape_char_def rejoined_def scanstring.simps)
  next
    case bmp
    then have e: "escape_char c = 0x5C # 0x75 # hex4 c"
      by (auto simp: escape_char_def)
    from bmp(1) assms show ?thesis
      by (simp add: e scan_u_plain rejoined_small)
  next
    case astral
    define h where "h = 0xD800 + (c - 0x10000) div 1024 mod 1024"
    define l where "l = 0xDC00 + (c - 0x10000) mod 1024"
    have hl: "h < 65536" "l < 65536" "is_high h" "is_low l"
      by (simp_all add: h_def l_def is_high_def is_low_def)
    from astral have e: "escape_char c = 0x5C # 0x75 # hex4 h @ 0x5C # 0x75 # hex4 l"
      by (simp add: escape_char_def h_def l_def)
    let ?t = "0x5C # 0x75 # hex4 l @ t"
    have 1: "6 < length ?t"
      using assms(1) by (cases t) (simp_all add: length_hex4)
    have 2: "drop 2 ?t = hex4 l @ t" "drop 6 ?t = t"
      by (simp_all add: length_hex4)
    have "scanstring acc (0x5C # 0x75 # hex4 h @ ?t) =
          scanstring (acc @ [0x10000 + ((h - 0xD800) * 1024 + (l - 0xDC00))]) t"
      unfolding scan_u_escape [OF hl(1), of ?t acc, simplified] 2
      using hl(3,4) 1 by (simp add: decode_hex4 [OF hl(2)])
    moreover from astral have "rejoined c = 0x10000 + ((h - 0xD800) * 1024 + (l - 0xDC00))"
      by (simp add: rejoined_def h_def l_def)
    ultimately show ?thesis
      by (simp add: e)
  qed
qed

lemma not_merges_quote: "\<not> merges (0x22 # rest)"
  by (simp add: merges_def)

lemma escape_char_surrogate:
  assumes "is_high c \<or> is_low c"
  shows "escape_char c = 0x5C # 0x75 # hex4 c"
  using assms by (auto simp: escape_char_def is_high_def is_low_def)

lemma not_merges_escape_char:
  assumes "\<not> is_low d"
  shows "\<not> merges (escape_char d @ t)"
proof -
  consider (two) "d = 0x5C \<or> d = 0x22 \<or> d = 8 \<or> d = 12 \<or> d = 10 \<or> d = 13 \<or> d = 9"
    | (plain) "0x20 \<le> d" "d \<le> 0x7E" "d \<noteq> 0x5C" "d \<noteq> 0x22"
    | (bmp) "d < 0x10000" "\<not> (0x20 \<le> d \<and> d \<le> 0x7E)" "d \<noteq> 8" "d \<noteq> 12" "d \<noteq> 10" "d \<noteq> 13" "d \<noteq> 9"
    | (astral) "0x10000 \<le> d"
    by linarith
  then show ?thesis
  proof cases
    case two
    then show ?thesis
      by (elim disjE) (simp_all add: escape_char_def merges_def)
  next
    case plain
    then show ?thesis
      by (simp add: escape_char_def merges_def)
  next
    case bmp
    then have e: "escape_char d = 0x5C # 0x75 # hex4 d"
      by (auto simp: escape_char_def)
    from bmp(1) assms show ?thesis
      by (simp add: e merges_def decode_hex4)
  next
    case astral
    define h where "h = 0xD800 + (d - 0x10000) div 1024 mod 1024"
    have h: "h < 65536" "\<not> is_low h"
      by (simp_all add: h_def is_low_def)
    from astral have e: "escape_char d =
        0x5C # 0x75 # hex4 h @ 0x5C # 0x75 # hex4 (0xDC00 + (d - 0x10000) mod 1024)"
      by (simp add: escape_char_def h_def)
    from h show ?thesis
      by (simp add: e merges_def decode_hex4)
  qed
qed

lemma scan_surrogate_pair:
  assumes "is_high c" and "is_low d" and "t \<noteq> []"
  shows "scanstring acc (escape_char c @ escape_char d @ t) =
         scanstring (acc @ [0x10000 + ((c - 0xD800) * 1024 + (d - 0xDC00))]) t"
proof -
  from assms(1,2) have c: "c < 65536" and d: "d < 65536"
    by (simp_all add: is_high_def is_low_def)
  let ?t = "0x5C # 0x75 # hex4 d @ t"
  have 1: "6 < length ?t"
    using assms(3) by (cases t) (simp_all add: length_hex4)
  have 2: "drop 2 ?t = hex4 d @ t" "drop 6 ?t = t"
    by (simp_all add: length_hex4)
  have "scanstring acc (0x5C # 0x75 # hex4 c @ ?t) =
        scanstring (acc @ [0x10000 + ((c - 0xD800) * 1024 + (d - 0xDC00))]) t"
    unfolding scan_u_escape [OF c, of ?t acc, simplified] 2
    using assms(1,2) 1 by (simp add: decode_hex4 [OF d])
  then show ?thesis
    using assms(1,2) by (simp add: escape_char_surrogate)
qed

lemma escape_char_not_Nil: "escape_char c \<noteq> []"
  by (simp add: escape_char_def lit_def)

text \<open>
  Reading back an escaped string: the decoder returns the text, with a surrogate pair of
  the escaped form read as one code point.
\<close>

lemma scanstring_escaped:
  "scanstring acc (concat (map escape_char s) @ 0x22 # rest) = Some (acc @ decoded s, rest)"
proof (induction s arbitrary: acc rule: decoded.induct)
  case 1
  show ?case by (simp add: scanstring.simps)
next
  case (2 c)
  have "scanstring acc (escape_char c @ 0x22 # rest) = scanstring (acc @ [rejoined c]) (0x22 # rest)"
    by (rule scan_escape_char) (simp_all add: not_merges_quote)
  then show ?case
    by (simp add: scanstring.simps)
next
  case (3 c d cs)
  let ?t = "concat (map escape_char cs) @ 0x22 # rest"
  show ?case
  proof (cases "is_high c \<and> is_low d")
    case True
    then have "scanstring acc (escape_char c @ escape_char d @ ?t) =
        scanstring (acc @ [0x10000 + ((c - 0xD800) * 1024 + (d - 0xDC00))]) ?t"
      by (intro scan_surrogate_pair) simp_all
    with True "3.IH"(1) [of "acc @ [0x10000 + ((c - 0xD800) * 1024 + (d - 0xDC00))]"]
    show ?thesis by simp
  next
    case False
    have a: "scanstring acc (escape_char c @ escape_char d @ ?t) =
        scanstring (acc @ [rejoined c]) (escape_char d @ ?t)"
      using False by (intro scan_escape_char) (auto simp: escape_char_not_Nil not_merges_escape_char)
    from False have b: "decoded (c # d # cs) = rejoined c # decoded (d # cs)"
      by auto
    have "scanstring acc (concat (map escape_char (c # d # cs)) @ 0x22 # rest) =
        scanstring acc (escape_char c @ escape_char d @ ?t)"
      by simp
    also note a
    also have "scanstring (acc @ [rejoined c]) (escape_char d @ ?t) =
        Some ((acc @ [rejoined c]) @ decoded (d # cs), rest)"
      using "3.IH"(2) [OF False, of "acc @ [rejoined c]"] by simp
    finally show ?thesis
      by (simp only: b append_assoc append_Cons append_Nil)
  qed
qed

lemma decoded_ascii:
  "list_all (\<lambda>c. c < 0xD800) s \<Longrightarrow> decoded s = s"
  by (induction s rule: decoded.induct) (simp_all add: rejoined_def is_high_def)

lemma skip_whitespace_simps:
  "skip_whitespace [] = []"
  "is_whitespace c \<Longrightarrow> skip_whitespace (c # s) = skip_whitespace s"
  "\<not> is_whitespace c \<Longrightarrow> skip_whitespace (c # s) = c # s"
  by (simp_all add: skip_whitespace_def)

lemma is_whitespace_simps:
  "is_whitespace 10" "is_whitespace 32" "\<not> is_whitespace 0x22" "\<not> is_whitespace 0x2C"
  "\<not> is_whitespace 0x3A" "\<not> is_whitespace 0x5B" "\<not> is_whitespace 0x5D"
  "\<not> is_whitespace 0x7B" "\<not> is_whitespace 0x7D"
  by (simp_all add: is_whitespace_def)

lemma scan_once_string:
  "scan_once (Suc n) (encode_string v @ r) = Some (JString (decoded v), r)"
  by (simp add: encode_string_def scanstring_escaped)

lemma encode_item_unfold:
  "encode_item k v @ r = 0x22 # concat (map escape_char k) @ 0x22 # 0x3A # 0x20 # encode_string v @ r"
  by (simp add: encode_item_def encode_string_def lit_def)

lemma skip_whitespace_encode_string:
  "skip_whitespace (encode_string v @ r) = encode_string v @ r"
  by (simp add: encode_string_def skip_whitespace_simps is_whitespace_simps)

lemma join_with_Cons: "\<exists>w. join_with sep (x # xs) = x @ w"
  by (cases xs) simp_all

lemma parse_object_item:
  "parse_object (Suc (Suc n)) pairs (encode_item k v @ r) =
     (case skip_whitespace r of
        [] \<Rightarrow> None
      | e # es \<Rightarrow>
          if e = 0x7D then Some (pairs @ [(decoded k, JString (decoded v))], es)
          else if e = 0x2C
          then parse_object (Suc n) (pairs @ [(decoded k, JString (decoded v))]) (skip_whitespace es)
          else None)"
  unfolding encode_item_unfold
  by (simp add: scanstring_escaped skip_whitespace_simps is_whitespace_simps scan_once_string
      skip_whitespace_encode_string del: scan_once.simps)

lemma encode_item_starts: "\<exists>t. encode_item k v = 0x22 # t"
  by (simp add: encode_item_def encode_string_def)

lemma parse_object_items:
  assumes "items \<noteq> []" and "length items < n"
  shows "parse_object n pairs
           (join_with (lit '','' @ [10] @ lit ''    '') (map (\<lambda>(k, v). encode_item k v) items) @
            [10] @ lit ''  '' @ lit ''}'' @ rest) =
         Some (pairs @ map (\<lambda>(k, v). (decoded k, JString (decoded v))) items, rest)"
  using assms
proof (induction items arbitrary: n pairs)
  case Nil
  then show ?case by simp
next
  case (Cons x xs)
  obtain k v where x: "x = (k, v)" by (cases x)
  from Cons.prems(2) obtain m where n: "n = Suc (Suc m)" and m: "length xs < Suc m"
    by (cases n; cases "n - 1") auto
  show ?case
  proof (cases xs)
    case Nil
    then show ?thesis
      by (simp add: x n parse_object_item lit_def skip_whitespace_simps is_whitespace_simps
          del: parse_object.simps)
  next
    case (Cons y ys)
    obtain k' v' where y: "y = (k', v')" by (cases y)
    let ?sep = "lit '','' @ [10] @ lit ''    ''"
    let ?tail = "[10] @ lit ''  '' @ lit ''}'' @ rest"
    let ?pairs = "pairs @ [(decoded k, JString (decoded v))]"
    obtain t where t: "encode_item k' v' = 0x22 # t"
      using encode_item_starts by blast
    obtain w where w: "join_with ?sep (map (\<lambda>(k, v). encode_item k v) xs) = encode_item k' v' @ w"
      using join_with_Cons [of ?sep "encode_item k' v'"] by (auto simp: Cons y)
    have sk: "skip_whitespace ([10] @ lit ''    '' @
        join_with ?sep (map (\<lambda>(k, v). encode_item k v) xs) @ ?tail) =
        join_with ?sep (map (\<lambda>(k, v). encode_item k v) xs) @ ?tail"
      unfolding w by (simp add: t lit_def skip_whitespace_simps is_whitespace_simps)
    have step: "parse_object (Suc (Suc m)) pairs (encode_item k v @ 0x2C # u) =
        parse_object (Suc m) ?pairs (skip_whitespace u)" for u
      by (simp add: parse_object_item skip_whitespace_simps is_whitespace_simps
          del: parse_object.simps)
    from Cons.IH [of "Suc m" ?pairs] m Cons
    have ih: "parse_object (Suc m) ?pairs
           (join_with ?sep (map (\<lambda>(k, v). encode_item k v) xs) @ ?tail) =
         Some (?pairs @ map (\<lambda>(k, v). (decoded k, JString (decoded v))) xs, rest)"
      by simp
    have "join_with ?sep (map (\<lambda>(k, v). encode_item k v) (x # xs)) @ ?tail =
          encode_item k v @ 0x2C # ([10] @ lit ''    '' @
            join_with ?sep (map (\<lambda>(k, v). encode_item k v) xs) @ ?tail)"
      by (simp add: x Cons lit_def)
    then have "parse_object n pairs
          (join_with ?sep (map (\<lambda>(k, v). encode_item k v) (x # xs)) @ ?tail) =
        parse_object (Suc m) ?pairs
          (join_with ?sep (map (\<lambda>(k, v). encode_item k v) xs) @ ?tail)"
      by (simp only: n step sk)
    with ih show ?thesis
      by (simp add: x)
  qed
qed

lemma decoded_keys:
  "decoded (lit ''name'') = lit ''name''" "decoded (lit ''author'') = lit ''author''"
  "decoded (lit ''version'') = lit ''version''" "decoded (lit ''description'') = lit ''description''"
  "decoded (lit ''icon_url'') = lit ''icon_url''" "decoded (lit ''download_url'') = lit ''download_url''"
  by (rule decoded_ascii, simp add: lit_def)+

lemma dict_items_plugin:
  "dict_items (map (\<lambda>(k, v). (decoded k, JString (decoded v))) (plugin_items p)) =
     [(lit ''name'', JString (decoded (name p))),
      (lit ''author'', JString (decoded (author p))),
      (lit ''version'', JString (decoded (version p))),
      (lit ''description'', JString (decoded (description p))),
      (lit ''icon_url'', JString (decoded (icon_url p))),
      (lit ''download_url'', JString (decoded (download_url p)))]"
  unfolding plugin_items_def list.map prod.case decoded_keys
  by (simp add: dict_items_def lit_def)

lemma encode_plugin_unfold:
  "encode_plugin p @ r =
     0x7B # 10 # 32 # 32 # 32 # 32 #
     join_with (lit '','' @ [10] @ lit ''    '') (map (\<lambda>(k, v). encode_item k v) (plugin_items p)) @
     [10] @ lit ''  '' @ lit ''}'' @ r"
  by (simp add: encode_plugin_def lit_def)

lemma scan_once_plugin:
  assumes "8 \<le> n"
  shows "scan_once n (encode_plugin p @ r) = Some (plugin_json p, r)"
proof -
  from assms obtain m where n: "n = Suc m" and m: "6 < m"
    by (cases n) auto
  let ?items = "join_with (lit '','' @ [10] @ lit ''    '')
      (map (\<lambda>(k, v). encode_item k v) (plugin_items p)) @ [10] @ lit ''  '' @ lit ''}'' @ r"
  have items: "plugin_items p \<noteq> []" "length (plugin_items p) < m"
    using m by (simp_all add: plugin_items_def)
  obtain t where t: "?items = 0x22 # t"
    by (simp add: plugin_items_def encode_item_def encode_string_def)
  have sk: "skip_whitespace (10 # 32 # 32 # 32 # 32 # ?items) = ?items"
    unfolding t by (simp add: skip_whitespace_simps is_whitespace_simps)
  have po: "parse_object m [] ?items =
      Some ([] @ map (\<lambda>(k, v). (decoded k, JString (decoded v))) (plugin_items p), r)"
    by (rule parse_object_items [OF items])
  have "scan_once (Suc m) (0x7B # 10 # 32 # 32 # 32 # 32 # ?items) =
      Some (JObject (dict_items (map (\<lambda>(k, v). (decoded k, JString (decoded v))) (plugin_items p))), r)"
    unfolding scan_once.simps sk
    using po unfolding t by simp
  then show ?thesis
    unfolding n encode_plugin_unfold dict_items_plugin plugin_json_def .
qed

lemma encode_plugin_starts: "\<exists>t. encode_plugin p = 0x7B # t"
  by (simp add: encode_plugin_def lit_def)

lemma parse_array_plugins:
  assumes "ps \<noteq> []" and "length ps + 8 \<le> n"
  shows "parse_array n vals
           (join_with (lit '','' @ [10] @ lit ''  '') (map encode_plugin ps) @ [10] @ lit '']'' @ rest) =
         Some (vals @ map plugin_json ps, rest)"
  using assms
proof (induction ps arbitrary: n vals)
  case Nil
  then show ?case by simp
next
  case (Cons p ps)
  let ?sep = "lit '','' @ [10] @ lit ''  ''"
  let ?tail = "[10] @ lit '']'' @ rest"
  from Cons.prems(2) obtain m where n: "n = Suc m" and m: "length ps + 8 \<le> m"
    by (cases n) auto
  then have m8: "8 \<le> m" by simp
  have step: "parse_array (Suc m) vals (encode_plugin p @ u) =
      (case skip_whitespace u of
         [] \<Rightarrow> None
       | d # ds \<Rightarrow>
           if d = 0x5D then Some (vals @ [plugin_json p], ds)
           else if d = 0x2C then parse_array m (vals @ [plugin_json p]) (skip_whitespace ds)
           else None)" for u
    by (simp add: scan_once_plugin [OF m8] del: scan_once.simps)
  show ?case
  proof (cases ps)
    case Nil
    have "parse_array (Suc m) vals (encode_plugin p @ ?tail) = Some (vals @ [plugin_json p], rest)"
      unfolding step by (simp add: lit_def skip_whitespace_simps is_whitespace_simps)
    then show ?thesis
      by (simp add: n Nil)
  next
    case (Cons q qs)
    obtain t where t: "encode_plugin q = 0x7B # t"
      using encode_plugin_starts by blast
    obtain w where w: "join_with ?sep (map encode_plugin ps) = encode_plugin q @ w"
      using join_with_Cons [of ?sep "encode_plugin q"] by (auto simp: Cons)
    have sk: "skip_whitespace ([10] @ lit ''  '' @ join_with ?sep (map encode_plugin ps) @ ?tail) =
        join_with ?sep (map encode_plugin ps) @ ?tail"
      unfolding w by (simp add: t lit_def skip_whitespace_simps is_whitespace_simps)
    have "parse_array (Suc m) vals (encode_plugin p @ 0x2C # u) =
        parse_array m (vals @ [plugin_json p]) (skip_whitespace u)" for u
      unfolding step by (simp add: skip_whitespace_simps is_whitespace_simps)
    moreover have "join_with ?sep (map encode_plugin (p # ps)) @ ?tail =
        encode_plugin p @ 0x2C # ([10] @ lit ''  '' @ join_with ?sep (map encode_plugin ps) @ ?tail)"
      by (simp add: Cons lit_def)
    ultimately have "parse_array n vals (join_with ?sep (map encode_plugin (p # ps)) @ ?tail) =
        parse_array m (vals @ [plugin_json p]) (join_with ?sep (map encode_plugin ps) @ ?tail)"
      by (simp only: n sk)
    moreover from \<open>ps = q # qs\<close> m have "length ps + 8 \<le> m" "ps \<noteq> []"
      by simp_all
    then have "parse_array m (vals @ [plugin_json p]) (join_with ?sep (map encode_plugin ps) @ ?tail) =
        Some ((vals @ [plugin_json p]) @ map plugin_json ps, rest)"
      using Cons.IH by blast
    ultimately show ?thesis
      by simp
  qed
qed

lemma length_join_with:
  "list_all (\<lambda>x. x \<noteq> []) xs \<Longrightarrow> length xs \<le> length (join_with sep xs)"
proof (induction sep xs rule: join_with.induct)
  case (1 sep)
  show ?case by simp
next
  case (2 sep x)
  then show ?case by (cases x) simp_all
next
  case (3 sep x y ys)
  then show ?case by (cases x) simp_all
qed

lemma encode_plugin_not_Nil: "encode_plugin p \<noteq> []"
  by (simp add: encode_plugin_def lit_def)

text \<open>Reading back what \<open>json.dump\<close> wrote gives the list of the records.\<close>

lemma json_loads_dumps:
  "json_loads (json_dumps plugins_data) = Some (JArray (map plugin_json plugins_data))"
proof (cases "plugins_data = []")
  case True
  have fuel: "2 * length (lit ''[]'') + 2 = Suc (2 * length (lit ''[]'') + 1)"
    by simp
  have "scan_once (Suc k) [0x5B, 0x5D] = Some (JArray [], [])" for k
    by (simp add: skip_whitespace_simps is_whitespace_simps)
  moreover have "skip_whitespace (lit ''[]'') = [0x5B, 0x5D]"
    by (simp add: lit_def skip_whitespace_simps is_whitespace_simps)
  ultimately have "json_loads (lit ''[]'') = Some (JArray [])"
    unfolding json_loads_def fuel by (simp add: skip_whitespace_simps)
  with True show ?thesis
    by (simp add: json_dumps_def)
next
  case False
  let ?sep = "lit '','' @ [10] @ lit ''  ''"
  let ?body = "join_with ?sep (map encode_plugin plugins_data) @ [10] @ lit '']'' @ []"
  from False have dump: "json_dumps plugins_data = 0x5B # 10 # 32 # 32 # ?body"
    by (simp add: json_dumps_def lit_def)
  have "length plugins_data \<le> length (join_with ?sep (map encode_plugin plugins_data))"
    by (rule order_trans [OF _ length_join_with])
      (simp_all add: list_all_iff encode_plugin_not_Nil)
  then have fuel: "length plugins_data + 8 \<le> 2 * length (json_dumps plugins_data) + 1"
    unfolding dump by simp
  obtain m where m: "2 * length (json_dumps plugins_data) + 2 = Suc m"
    and m': "length plugins_data + 8 \<le> m"
    using fuel by simp
  obtain q qs where "plugins_data = q # qs"
    using False by (cases plugins_data) auto
  then obtain w where "?body = encode_plugin q @ w"
    using join_with_Cons [of ?sep "encode_plugin q" "map encode_plugin qs"] by auto
  then obtain t where t: "?body = 0x7B # t"
    using encode_plugin_starts [of q] by auto
  have pa: "parse_array m [] ?body = Some ([] @ map plugin_json plugins_data, [])"
    by (rule parse_array_plugins [OF False m'])
  have "scan_once (Suc m) (skip_whitespace (0x5B # 10 # 32 # 32 # ?body)) =
      Some (JArray (map plugin_json plugins_data), [])"
    using pa unfolding t
    by (simp add: skip_whitespace_simps is_whitespace_simps del: parse_array.simps)
  then show ?thesis
    unfolding json_loads_def m dump [symmetric]
    by (simp add: skip_whitespace_simps)
qed

lemma nat_of_str_of_nat: "nat_of_str (str_of_nat n) = n"
proof (induction n rule: str_of_nat.induct)
  case (1 n)
  show ?case
  proof (cases "n < 10")
    case True
    then show ?thesis
      by (simp add: str_of_nat.simps [of n] nat_of_str_def)
  next
    case False
    with "1.IH" have "nat_of_str (str_of_nat (n div 10)) = n div 10"
      by simp
    with False show ?thesis
      by (simp add: str_of_nat.simps [of n] nat_of_str_def)
  qed
qed

lemma summary_line_inj: "summary_line m = summary_line n \<Longrightarrow> m = n"
proof -
  assume "summary_line m = summary_line n"
  then have "str_of_nat m = str_of_nat n"
    by (simp add: summary_line_def)
  then have "nat_of_str (str_of_nat m) = nat_of_str (str_of_nat n)"
    by simp
  then show "m = n"
    by (simp only: nat_of_str_of_nat)
qed

lemma rejoined_scalar: "c < 0x110000 \<Longrightarrow> rejoined c = c"
proof -
  assume c: "c < 0x110000"
  show ?thesis
  proof (cases "c < 0x10000")
    case True
    then show ?thesis by (simp add: rejoined_def)
  next
    case False
    define x where "x = c - 0x10000"
    with c have "x div 1024 < 1024"
      by simp
    then have "x div 1024 mod 1024 * 1024 + x mod 1024 = x"
      by simp
    with False show ?thesis
      by (simp add: rejoined_def x_def)
  qed
qed

lemma decoded_scalar:
  "list_all (\<lambda>c. c < 0x110000 \<and> \<not> is_high c) s \<Longrightarrow> decoded s = s"
  by (induction s rule: decoded.induct) (simp_all add: rejoined_scalar)

lemma ordered_listdir:
  "listdir ordered_world = Some [lit ''Grapher.py'', lit ''draft.py'', lit ''CurrencyConverter.py'']"
  by (simp add: ordered_world_def)

lemma ordered_readable:
  "readable ordered_world [lit ''Grapher.py'', lit ''draft.py'', lit ''CurrencyConverter.py'']"
  by (simp add: readable_def ordered_world_def path_defs lit_def)

lemma ordered_qualifying:
  "filter (qualifies ordered_world)
     [lit ''Grapher.py'', lit ''draft.py'', lit ''CurrencyConverter.py''] =
   [lit ''Grapher.py'', lit ''CurrencyConverter.py'']"
proof -
  have t: "file_text ordered_world (plugin_path (lit ''Grapher.py'')) = Some demo_duplicate"
    "file_text ordered_world (plugin_path (lit ''draft.py'')) = Some demo_partial"
    "file_text ordered_world (plugin_path (lit ''CurrencyConverter.py'')) = Some demo_content"
    by (simp_all add: ordered_world_def path_defs lit_def)
  have c: "candidate (lit ''Grapher.py'')" "candidate (lit ''draft.py'')"
    "candidate (lit ''CurrencyConverter.py'')"
    by (simp_all add: path_defs lit_def)
  have "set field_names \<subseteq> fst ` set (findall demo_duplicate)"
    by (simp add: findall_demo_duplicate field_names_def)
  with t(1) c(1) have 1: "qualifies ordered_world (lit ''Grapher.py'')"
    by (simp add: qualifies_def has_all_fields_iff)
  from t(2) demo_partial_version have 2: "\<not> qualifies ordered_world (lit ''draft.py'')"
    by (auto simp: qualifies_def has_all_fields_iff field_names_def)
  from t(3) c(3) demo_content_fields have 3: "qualifies ordered_world (lit ''CurrencyConverter.py'')"
    by (simp add: qualifies_def has_all_fields_iff)
  from 1 2 3 show ?thesis by simp
qed








section \<open>The claims\<close>

text \<open>
  C1. For every file of the plugin directory whose name ends in \<open>.py\<close> and whose text
  has a match of the pattern for each of the four fields, the manifest holds exactly one
  record for that file (the record with the download URL of the file), and the name,
  author, version and description of the record are the extracted values. The run is one
  in which the directory can be listed, its entries have distinct names, every candidate
  can be read and the output can be written.
\<close>

theorem C1_one_record_per_qualifying_file:
  assumes "listdir w = Some filenames" and "distinct filenames"
    and "readable w filenames" and "output_writable w"
    and "filename \<in> set filenames" and "endswith filename (lit ''.py'')"
    and "file_text w (path_join PLUGIN_DIR filename) = Some content"
    and "set field_names \<subseteq> fst ` set (findall content)"
  shows "\<exists>plugins_data p.
     main w =
       (Inr (),
        w\<lparr> file_text := (file_text w)(OUTPUT_FILE \<mapsto> json_dumps plugins_data),
           stdout := stdout w @ summary_line (length plugins_data) @ [10] \<rparr>) \<and>
     filter (\<lambda>q. download_url q = make_download_url filename) plugins_data = [p] \<and>
     meta_matches content (lit ''name'') = Some (name p) \<and>
     meta_matches content (lit ''author'') = Some (author p) \<and>
     meta_matches content (lit ''version'') = Some (version p) \<and>
     meta_matches content (lit ''description'') = Some (description p)"
proof -
  let ?data = "map (plugin_of w) (filter (qualifies w) filenames)"
  from assms(7,8) have all: "has_all_fields (meta_matches content)"
    by (simp add: has_all_fields_iff)
  with assms(6,7) have q: "qualifies w filename"
    by (simp add: qualifies_def candidate_def plugin_path_def)
  have "filter (\<lambda>q. download_url q = make_download_url filename) ?data =
        map (plugin_of w) (filter (\<lambda>f. f = filename) (filter (qualifies w) filenames))"
    by (simp add: filter_map o_def download_url_plugin_of make_download_url_inj)
  also have "\<dots> = [plugin_of w filename]"
    using assms(2,5) q by (simp add: filter_eq_distinct)
  finally have one: "filter (\<lambda>q. download_url q = make_download_url filename) ?data =
        [plugin_of w filename]" .
  have p: "plugin_of w filename = make_plugin filename (meta_matches content)"
    using assms(7) by (simp add: plugin_of_def plugin_path_def)
  have m: "main w =
       (Inr (),
        w\<lparr> file_text := (file_text w)(OUTPUT_FILE \<mapsto> json_dumps ?data),
           stdout := stdout w @ summary_line (length ?data) @ [10] \<rparr>)"
    using main_success [OF assms(1,3,4)] by simp
  from m one has_all_fields_lookup [OF all, of filename] show ?thesis
    unfolding p by blast
qed

theorem C1_witness:
  "listdir demo_world = Some [lit ''draft.py'', lit ''notes.txt'', lit ''CurrencyConverter.py''] \<and>
   distinct [lit ''draft.py'', lit ''notes.txt'', lit ''CurrencyConverter.py''] \<and>
   readable demo_world [lit ''draft.py'', lit ''notes.txt'', lit ''CurrencyConverter.py''] \<and>
   output_writable demo_world \<and>
   endswith (lit ''CurrencyConverter.py'') (lit ''.py'') \<and>
   file_text demo_world (path_join PLUGIN_DIR (lit ''CurrencyConverter.py'')) = Some demo_content \<and>
   set field_names \<subseteq> fst ` set (findall demo_content) \<and>
   (\<exists>plugins_data p.
     main demo_world =
       (Inr (),
        demo_world\<lparr> file_text := (file_text demo_world)(OUTPUT_FILE \<mapsto> json_dumps plugins_data),
           stdout := stdout demo_world @ summary_line (length plugins_data) @ [10] \<rparr>) \<and>
     filter (\<lambda>q. download_url q = make_download_url (lit ''CurrencyConverter.py'')) plugins_data = [p] \<and>
     meta_matches demo_content (lit ''name'') = Some (name p) \<and>
     meta_matches demo_content (lit ''author'') = Some (author p) \<and>
     meta_matches demo_content (lit ''version'') = Some (version p) \<and>
     meta_matches demo_content (lit ''description'') = Some (description p))"
proof -
  have d: "distinct [lit ''draft.py'', lit ''notes.txt'', lit ''CurrencyConverter.py'']"
    by (simp add: lit_def)
  have o: "output_writable demo_world"
    by (simp add: demo_world_def output_writable_def)
  have i: "lit ''CurrencyConverter.py'' \<in> set [lit ''draft.py'', lit ''notes.txt'', lit ''CurrencyConverter.py'']"
    by simp
  have e: "endswith (lit ''CurrencyConverter.py'') (lit ''.py'')"
    by (simp add: endswith_def lit_def)
  from C1_one_record_per_qualifying_file
    [OF demo_listdir d demo_readable o i e demo_file_text(1) demo_content_fields]
  show ?thesis
    using demo_listdir d demo_readable o e demo_file_text(1) demo_content_fields by blast
qed

text \<open>
  C2. The download URL is the base path, the plugin directory and the file name. The icon
  file name is the result of \<open>filename.replace(".py", ".png")\<close>, which replaces every
  \<open>.py\<close> of the name and not only the extension: for the file \<open>my.pyfile.py\<close> the
  record's icon URL ends in \<open>icons/my.pngfile.png\<close>, where the claim requires
  \<open>icons/my.pyfile.png\<close>.
\<close>

theorem C2_icon_url_replaces_every_py:
  "endswith (lit ''my.pyfile.py'') (lit ''.py'') \<and>
   scan_plugins pyfile_world [lit ''my.pyfile.py''] [] =
     Inr [make_plugin (lit ''my.pyfile.py'') (meta_matches demo_content)] \<and>
   download_url (make_plugin (lit ''my.pyfile.py'') (meta_matches demo_content)) =
     lit ''https://raw.githubusercontent.com/AidenZaire/algebytestore/main/plugins/my.pyfile.py'' \<and>
   icon_url (make_plugin (lit ''my.pyfile.py'') (meta_matches demo_content)) =
     lit ''https://raw.githubusercontent.com/AidenZaire/algebytestore/main/icons/my.pngfile.png'' \<and>
   icon_url (make_plugin (lit ''my.pyfile.py'') (meta_matches demo_content)) \<noteq>
     lit ''https://raw.githubusercontent.com/AidenZaire/algebytestore/main/icons/my.pyfile.png''"
proof -
  have h: "has_all_fields (meta_matches demo_content)"
    using demo_content_fields by (simp add: has_all_fields_iff)
  have r: "file_text pyfile_world (path_join PLUGIN_DIR (lit ''my.pyfile.py'')) = Some demo_content"
    by (simp add: pyfile_world_def path_defs lit_def)
  have e: "endswith (lit ''my.pyfile.py'') (lit ''.py'')"
    by (simp add: endswith_def lit_def)
  from h r e have s: "scan_plugins pyfile_world [lit ''my.pyfile.py''] [] =
     Inr [make_plugin (lit ''my.pyfile.py'') (meta_matches demo_content)]"
    by simp
  have u: "download_url (make_plugin (lit ''my.pyfile.py'') (meta_matches demo_content)) =
     lit ''https://raw.githubusercontent.com/AidenZaire/algebytestore/main/plugins/my.pyfile.py''"
    "icon_url (make_plugin (lit ''my.pyfile.py'') (meta_matches demo_content)) =
     lit ''https://raw.githubusercontent.com/AidenZaire/algebytestore/main/icons/my.pngfile.png''"
    by (simp_all add: make_plugin_def make_icon_url_def make_download_url_def BASE_URL_def
        ICON_DIR_def PLUGIN_DIR_def lit_def)
  have n: "lit ''https://raw.githubusercontent.com/AidenZaire/algebytestore/main/icons/my.pngfile.png'' \<noteq>
     lit ''https://raw.githubusercontent.com/AidenZaire/algebytestore/main/icons/my.pyfile.png''"
    by (simp add: lit_def)
  from e s u n show ?thesis
    by simp
qed

text \<open>
  C3. A candidate file whose text has no match for one of the four fields is skipped: the
  loop goes on as if the entry were not in the listing, so that the outcome of the run,
  the files and the printed text are those of the run without it (no error is raised for
  it), and no record of the manifest carries its download URL.
\<close>

theorem C3_incomplete_file_is_skipped:
  assumes "endswith filename (lit ''.py'')"
    and "file_text w (path_join PLUGIN_DIR filename) = Some content"
    and "k \<in> set field_names" and "k \<notin> fst ` set (findall content)"
  shows "scan_plugins w (before @ filename # after) acc = scan_plugins w (before @ after) acc \<and>
         fst (main (w\<lparr>listdir := Some (before @ filename # after)\<rparr>)) =
           fst (main (w\<lparr>listdir := Some (before @ after)\<rparr>)) \<and>
         file_text (snd (main (w\<lparr>listdir := Some (before @ filename # after)\<rparr>))) =
           file_text (snd (main (w\<lparr>listdir := Some (before @ after)\<rparr>))) \<and>
         stdout (snd (main (w\<lparr>listdir := Some (before @ filename # after)\<rparr>))) =
           stdout (snd (main (w\<lparr>listdir := Some (before @ after)\<rparr>))) \<and>
         (scan_plugins w filenames [] = Inr plugins_data \<longrightarrow>
            make_download_url filename \<notin> download_url ` set plugins_data)"
proof -
  from assms(3,4) have "\<not> has_all_fields (meta_matches content)"
    by (auto simp: has_all_fields_iff)
  with assms(2) have nq: "\<not> qualifies w filename"
    by (simp add: qualifies_def plugin_path_def)
  from assms(2) have r: "candidate filename \<longrightarrow> file_text w (plugin_path filename) \<noteq> None"
    by (simp add: plugin_path_def)
  have skip: "scan_plugins w (before @ filename # after) acc = scan_plugins w (before @ after) acc"
    for acc
    by (rule scan_plugins_skip [OF nq r])
  have absent: "make_download_url filename \<notin> download_url ` set plugins_data"
    if "scan_plugins w filenames [] = Inr plugins_data"
  proof -
    from scan_plugins_Inr [OF that]
    have "plugins_data = map (plugin_of w) (filter (qualifies w) filenames)" by simp
    with nq show ?thesis
      by (auto simp: download_url_plugin_of make_download_url_inj)
  qed
  from skip main_listdir [OF skip] absent show ?thesis
    by blast
qed

theorem C3_witness:
  "endswith (lit ''draft.py'') (lit ''.py'') \<and>
   file_text demo_world (path_join PLUGIN_DIR (lit ''draft.py'')) = Some demo_partial \<and>
   lit ''version'' \<in> set field_names \<and>
   lit ''version'' \<notin> fst ` set (findall demo_partial) \<and>
   scan_plugins demo_world [lit ''draft.py'', lit ''notes.txt'', lit ''CurrencyConverter.py''] [] =
     Inr (map (plugin_of demo_world) [lit ''CurrencyConverter.py'']) \<and>
   scan_plugins demo_world [lit ''notes.txt'', lit ''CurrencyConverter.py''] [] =
     Inr (map (plugin_of demo_world) [lit ''CurrencyConverter.py'']) \<and>
   make_download_url (lit ''draft.py'') \<notin>
     download_url ` set (map (plugin_of demo_world) [lit ''CurrencyConverter.py''])"
proof -
  have e: "endswith (lit ''draft.py'') (lit ''.py'')"
    by (simp add: endswith_def lit_def)
  have f: "lit ''version'' \<in> set field_names"
    by (simp add: field_names_def)
  have s: "scan_plugins demo_world [lit ''draft.py'', lit ''notes.txt'', lit ''CurrencyConverter.py''] [] =
     Inr (map (plugin_of demo_world) [lit ''CurrencyConverter.py''])"
    using scan_plugins_readable [OF demo_readable, of "[]", unfolded demo_qualifying]
    by (simp only: append_Nil)
  from C3_incomplete_file_is_skipped [OF e demo_file_text(2) f demo_partial_version,
      of "[]" "[lit ''notes.txt'', lit ''CurrencyConverter.py'']" "[]"
         "[lit ''draft.py'', lit ''notes.txt'', lit ''CurrencyConverter.py'']"
         "map (plugin_of demo_world) [lit ''CurrencyConverter.py'']"]
  have "scan_plugins demo_world ([] @ lit ''draft.py'' # [lit ''notes.txt'', lit ''CurrencyConverter.py'']) [] =
          scan_plugins demo_world ([] @ [lit ''notes.txt'', lit ''CurrencyConverter.py'']) []"
    and "scan_plugins demo_world [lit ''draft.py'', lit ''notes.txt'', lit ''CurrencyConverter.py''] [] =
           Inr (map (plugin_of demo_world) [lit ''CurrencyConverter.py'']) \<longrightarrow>
         make_download_url (lit ''draft.py'') \<notin>
           download_url ` set (map (plugin_of demo_world) [lit ''CurrencyConverter.py''])"
    by blast+
  with s e demo_file_text(2) f demo_partial_version show ?thesis
    by (simp del: scan_plugins.simps)
qed




text \<open>
  C5. Whenever the run succeeds, reading the text written to the output file with
  \<open>json.load\<close> gives a list; its length is the count in the summary line that was
  printed (the only number for which the printed line is the summary line), and it is
  the number of qualifying files of the listing.
\<close>

theorem C5_parsed_length_is_printed_count:
  assumes "main w = (Inr (), w')"
  shows "\<exists>filenames written vals.
           listdir w = Some filenames \<and>
           file_text w' OUTPUT_FILE = Some written \<and>
           json_loads written = Some (JArray vals) \<and>
           stdout w' = stdout w @ summary_line (length vals) @ [10] \<and>
           (\<forall>n. stdout w' = stdout w @ summary_line n @ [10] \<longrightarrow> n = length vals) \<and>
           length vals = length (filter (qualifies w) filenames)"
proof -
  from assms obtain filenames plugins_data where l: "listdir w = Some filenames"
    and s: "scan_plugins w filenames [] = Inr plugins_data" and o: "output_writable w"
    by (auto simp: main_def output_writable_def split: option.splits sum.splits if_splits)
  from scan_plugins_Inr [OF s]
  have d: "plugins_data = map (plugin_of w) (filter (qualifies w) filenames)"
    by simp
  from assms l s o have w': "w' = w\<lparr> file_text := (file_text w)(OUTPUT_FILE \<mapsto> json_dumps plugins_data),
        stdout := stdout w @ summary_line (length plugins_data) @ [10] \<rparr>"
    by (simp add: main_def output_writable_def)
  let ?vals = "map plugin_json plugins_data"
  have 1: "file_text w' OUTPUT_FILE = Some (json_dumps plugins_data)"
    by (simp add: w')
  have 2: "json_loads (json_dumps plugins_data) = Some (JArray ?vals)"
    by (rule json_loads_dumps)
  have 3: "stdout w' = stdout w @ summary_line (length ?vals) @ [10]"
    by (simp add: w')
  have 4: "\<forall>n. stdout w' = stdout w @ summary_line n @ [10] \<longrightarrow> n = length ?vals"
    using 3 by (auto dest: summary_line_inj)
  have 5: "length ?vals = length (filter (qualifies w) filenames)"
    by (simp add: d)
  from l 1 2 3 4 5 show ?thesis
    by blast
qed

theorem C5_witness:
  "main demo_world = (Inr (), snd (main demo_world)) \<and>
   (\<exists>filenames written vals.
      listdir demo_world = Some filenames \<and>
      file_text (snd (main demo_world)) OUTPUT_FILE = Some written \<and>
      json_loads written = Some (JArray vals) \<and>
      stdout (snd (main demo_world)) = stdout demo_world @ summary_line (length vals) @ [10] \<and>
      length vals = length (filter (qualifies demo_world) filenames)) \<and>
   length (filter (qualifies demo_world)
     [lit ''draft.py'', lit ''notes.txt'', lit ''CurrencyConverter.py'']) = 1"
proof -
  have o: "output_writable demo_world"
    by (simp add: demo_world_def output_writable_def)
  have m: "main demo_world = (Inr (), snd (main demo_world))"
    using main_success [OF demo_listdir demo_readable o] by simp
  from C5_parsed_length_is_printed_count [OF m] m show ?thesis
    by (simp only: demo_qualifying) auto
qed

text \<open>
  C6. When the directory can be listed, every candidate can be read and has no match for
  one of the four fields (in particular when the listing has no \<open>.py\<close> entry at all), and
  the output can be written, the run writes the empty JSON array \<open>[]\<close> and prints the
  summary with the count 0.
\<close>

theorem C6_no_qualifying_file_gives_empty_array:
  assumes "listdir w = Some filenames" and "output_writable w"
    and "list_all (\<lambda>f. endswith f (lit ''.py'') \<longrightarrow>
           (\<exists>content. file_text w (path_join PLUGIN_DIR f) = Some content \<and>
              \<not> set field_names \<subseteq> fst ` set (findall content))) filenames"
  shows "main w =
     (Inr (),
      w\<lparr> file_text := (file_text w)(OUTPUT_FILE \<mapsto> lit ''[]''),
         stdout := stdout w @ [0x2705] @ lit '' Generated plugins.json with 0 plugins.'' @ [10] \<rparr>)"
proof -
  from assms(3) have r: "readable w filenames"
    by (auto simp: readable_def list_all_iff candidate_def plugin_path_def)
  from assms(3) have "filter (qualifies w) filenames = []"
    by (fastforce simp: filter_empty_conv list_all_iff qualifies_def candidate_def
        plugin_path_def has_all_fields_iff)
  with main_success [OF assms(1) r assms(2)] show ?thesis
    by (simp add: json_dumps_def summary_line_0)
qed

theorem C6_witness:
  "listdir (demo_world\<lparr>listdir := Some [lit ''draft.py'', lit ''notes.txt'']\<rparr>) =
     Some [lit ''draft.py'', lit ''notes.txt''] \<and>
   output_writable (demo_world\<lparr>listdir := Some [lit ''draft.py'', lit ''notes.txt'']\<rparr>) \<and>
   list_all (\<lambda>f. endswith f (lit ''.py'') \<longrightarrow>
      (\<exists>content. file_text (demo_world\<lparr>listdir := Some [lit ''draft.py'', lit ''notes.txt'']\<rparr>)
           (path_join PLUGIN_DIR f) = Some content \<and>
         \<not> set field_names \<subseteq> fst ` set (findall content)))
     [lit ''draft.py'', lit ''notes.txt''] \<and>
   fst (main (demo_world\<lparr>listdir := Some [lit ''draft.py'', lit ''notes.txt'']\<rparr>)) = Inr () \<and>
   file_text (snd (main (demo_world\<lparr>listdir := Some [lit ''draft.py'', lit ''notes.txt'']\<rparr>)))
     OUTPUT_FILE = Some (lit ''[]'') \<and>
   stdout (snd (main (demo_world\<lparr>listdir := Some [lit ''draft.py'', lit ''notes.txt'']\<rparr>))) =
     [0x2705] @ lit '' Generated plugins.json with 0 plugins.'' @ [10]"
proof -
  let ?w = "demo_world\<lparr>listdir := Some [lit ''draft.py'', lit ''notes.txt'']\<rparr>"
  have l: "listdir ?w = Some [lit ''draft.py'', lit ''notes.txt'']"
    by simp
  have o: "output_writable ?w"
    by (simp add: demo_world_def output_writable_def)
  have "\<not> set field_names \<subseteq> fst ` set (findall demo_partial)"
    using demo_partial_version by (auto simp: field_names_def)
  with demo_file_text(2)
  have a: "list_all (\<lambda>f. endswith f (lit ''.py'') \<longrightarrow>
      (\<exists>content. file_text ?w (path_join PLUGIN_DIR f) = Some content \<and>
         \<not> set field_names \<subseteq> fst ` set (findall content)))
     [lit ''draft.py'', lit ''notes.txt'']"
    by (simp add: endswith_def lit_def)
  have e: "stdout demo_world = []"
    by (simp add: demo_world_def output_writable_def)
  from C6_no_qualifying_file_gives_empty_array [OF l o a] l o a e show ?thesis
    by simp
qed

text \<open>
  C7. The claim fails for an occurrence that lies inside an earlier match: in
  \<^verbatim>\<open>__plugin_description__ = "set __plugin_name__ = 'x' to name it"\<close> the text
  \<^verbatim>\<open>__plugin_name__ = 'x'\<close> stands in a string literal and is an occurrence of the
  pattern, but the match of the description ends at its first quote and the scan goes on
  after it, so the name is not present.
\<close>

theorem C7_counterexample:
  "metadata_pattern (lit ''__plugin_name__ = '' @ [39] @ lit ''x'' @ [39]) =
     Some (lit ''name'', lit ''x'', []) \<and>
   findall (lit ''__plugin_description__ = '' @ [34] @ lit ''set '' @
            (lit ''__plugin_name__ = '' @ [39] @ lit ''x'' @ [39]) @
            lit '' to name it'' @ [34]) =
     [(lit ''description'', lit ''set __plugin_name__ = '')] \<and>
   meta_matches (lit ''__plugin_description__ = '' @ [34] @ lit ''set '' @
            (lit ''__plugin_name__ = '' @ [39] @ lit ''x'' @ [39]) @
            lit '' to name it'' @ [34]) (lit ''name'') = None"
  by (simp add: meta_matches_def dict_def regex_defs)

text \<open>
  C7 as amended. Extraction looks at the text only: an occurrence of the pattern
  (the field, blanks around the equals sign, a quote, a value of at least one character
  that has no line feed and no quote after its first character, a quote) is a match
  whatever stands before and after it, in a comment or in a string literal as well,
  provided that no attempt of the pattern that starts before the occurrence reaches into
  it. The field is then present, and its value is the value of the occurrence unless a
  later match of the same field replaces it.
\<close>

theorem C7_occurrence_counts_in_any_context:
  assumes "k \<in> set field_names" and "list_all isspace ws1" and "list_all isspace ws2"
    and "is_quote q1" and "is_quote q2"
    and "not_newline c" and "list_all (\<lambda>x. not_newline x \<and> \<not> is_quote x) v"
    and "occurrence = lit ''__plugin_'' @ k @ lit ''__'' @ ws1 @ lit ''='' @ ws2 @ q1 # c # v @ [q2]"
    and "clear_before pre (occurrence @ post)"
  shows "(\<exists>ms. findall (pre @ occurrence @ post) = ms @ (k, c # v) # findall post) \<and>
         meta_matches (pre @ occurrence @ post) k \<noteq> None \<and>
         (k \<notin> fst ` set (findall post) \<longrightarrow>
            meta_matches (pre @ occurrence @ post) k = Some (c # v))"
proof -
  have m: "metadata_pattern (occurrence @ post) = Some (k, c # v, post)"
    using metadata_pattern_occurrence [OF assms(1-4,6,7,5), of post]
    by (simp add: assms(8))
  have "occurrence @ post \<noteq> []"
    by (simp add: assms(8) lit_def)
  then obtain x xs where "occurrence @ post = x # xs"
    by (cases "occurrence @ post") auto
  with m have f: "findall (occurrence @ post) = (k, c # v) # findall post"
    by simp
  from findall_reaches [OF assms(9)] f obtain ms where
    ms: "findall (pre @ occurrence @ post) = ms @ (k, c # v) # findall post"
    by auto
  then have "k \<in> fst ` set (findall (pre @ occurrence @ post))"
    by force
  then have "meta_matches (pre @ occurrence @ post) k \<noteq> None"
    by (simp add: meta_matches_def dict_None)
  moreover have "meta_matches (pre @ occurrence @ post) k = Some (c # v)"
    if "k \<notin> fst ` set (findall post)"
    using that by (simp add: meta_matches_def ms dict_last)
  ultimately show ?thesis
    using ms by blast
qed

theorem C7_witness:
  "lit ''name'' \<in> set field_names \<and> list_all isspace (lit '' '') \<and> is_quote 39 \<and>
   not_newline 120 \<and> list_all (\<lambda>x. not_newline x \<and> \<not> is_quote x) [] \<and>
   clear_before (lit ''help = '' @ [34] @ lit ''set '')
     ((lit ''__plugin_'' @ lit ''name'' @ lit ''__'' @ lit '' '' @ lit ''='' @ lit '' '' @
       39 # 120 # [] @ [39]) @ lit '' to name it'' @ [34]) \<and>
   lit ''name'' \<notin> fst ` set (findall (lit '' to name it'' @ [34])) \<and>
   meta_matches (lit ''help = '' @ [34] @ lit ''set '' @
       (lit ''__plugin_'' @ lit ''name'' @ lit ''__'' @ lit '' '' @ lit ''='' @ lit '' '' @
        39 # 120 # [] @ [39]) @ lit '' to name it'' @ [34]) (lit ''name'') = Some [120]"
proof -
  have k: "lit ''name'' \<in> set field_names"
    by (simp add: field_names_def)
  have ws: "list_all isspace (lit '' '')"
    by (simp add: lit_def isspace_def)
  have q: "is_quote 39"
    by (simp add: is_quote_def)
  have c: "not_newline 120"
    by (simp add: not_newline_def)
  have v: "list_all (\<lambda>x. not_newline x \<and> \<not> is_quote x) []"
    by simp
  have cl: "clear_before (lit ''help = '' @ [34] @ lit ''set '')
     ((lit ''__plugin_'' @ lit ''name'' @ lit ''__'' @ lit '' '' @ lit ''='' @ lit '' '' @
       39 # 120 # [] @ [39]) @ lit '' to name it'' @ [34])"
    by (simp add: regex_defs)
  have p: "lit ''name'' \<notin> fst ` set (findall (lit '' to name it'' @ [34]))"
    by (simp add: regex_defs)
  from C7_occurrence_counts_in_any_context [OF k ws ws q q c v refl cl] p
  have "meta_matches ((lit ''help = '' @ [34] @ lit ''set '') @
       (lit ''__plugin_'' @ lit ''name'' @ lit ''__'' @ lit '' '' @ lit ''='' @ lit '' '' @
        39 # 120 # [] @ [39]) @ lit '' to name it'' @ [34]) (lit ''name'') = Some [120]"
    by blast
  with k ws q c v cl p show ?thesis
    by (simp only: append_assoc simp_thms)
qed

text \<open>
  C8. The records of the manifest follow the directory listing: whenever the run writes a
  manifest, its records are those of the qualifying files, one for each, in the order in
  which the listing enumerates them; a run in which every candidate can be read and the
  output can be written does write it.
\<close>

theorem C8_manifest_follows_listing_order:
  assumes "listdir w = Some filenames"
  shows "(readable w filenames \<and> output_writable w \<longrightarrow> fst (main w) = Inr ()) \<and>
         (fst (main w) = Inr () \<longrightarrow>
            scan_plugins w filenames [] = Inr (map (plugin_of w) (filter (qualifies w) filenames)) \<and>
            file_text (snd (main w)) OUTPUT_FILE =
              Some (json_dumps (map (plugin_of w) (filter (qualifies w) filenames))) \<and>
            map download_url (map (plugin_of w) (filter (qualifies w) filenames)) =
              map make_download_url (filter (qualifies w) filenames))"
proof (intro conjI impI)
  assume "readable w filenames \<and> output_writable w"
  with assms show "fst (main w) = Inr ()"
    by (simp add: main_success)
next
  assume ok: "fst (main w) = Inr ()"
  with assms obtain plugins_data where s: "scan_plugins w filenames [] = Inr plugins_data"
    and o: "output_writable w"
    by (auto simp: main_def output_writable_def split: sum.splits option.splits if_splits)
  from scan_plugins_Inr [OF s]
  have d: "plugins_data = map (plugin_of w) (filter (qualifies w) filenames)" by simp
  with s show "scan_plugins w filenames [] =
      Inr (map (plugin_of w) (filter (qualifies w) filenames))" by simp
  from assms s o d show "file_text (snd (main w)) OUTPUT_FILE =
      Some (json_dumps (map (plugin_of w) (filter (qualifies w) filenames)))"
    by (simp add: main_def output_writable_def)
  show "map download_url (map (plugin_of w) (filter (qualifies w) filenames)) =
      map make_download_url (filter (qualifies w) filenames)"
    by (simp add: download_url_plugin_of)
qed

theorem C8_witness:
  "listdir ordered_world = Some [lit ''Grapher.py'', lit ''draft.py'', lit ''CurrencyConverter.py''] \<and>
   readable ordered_world [lit ''Grapher.py'', lit ''draft.py'', lit ''CurrencyConverter.py''] \<and>
   output_writable ordered_world \<and>
   fst (main ordered_world) = Inr () \<and>
   scan_plugins ordered_world [lit ''Grapher.py'', lit ''draft.py'', lit ''CurrencyConverter.py''] []
     = Inr (map (plugin_of ordered_world) [lit ''Grapher.py'', lit ''CurrencyConverter.py'']) \<and>
   file_text (snd (main ordered_world)) OUTPUT_FILE =
     Some (json_dumps (map (plugin_of ordered_world) [lit ''Grapher.py'', lit ''CurrencyConverter.py''])) \<and>
   map download_url (map (plugin_of ordered_world) [lit ''Grapher.py'', lit ''CurrencyConverter.py'']) =
     map make_download_url [lit ''Grapher.py'', lit ''CurrencyConverter.py'']"
proof -
  have o: "output_writable ordered_world"
    by (simp add: ordered_world_def output_writable_def)
  note t = C8_manifest_follows_listing_order [OF ordered_listdir, unfolded ordered_qualifying]
  from t ordered_readable o have "fst (main ordered_world) = Inr ()"
    by blast
  with t ordered_readable o ordered_listdir show ?thesis
    by blast
qed

text \<open>
  C9. When the pattern matches a field more than once in a file, the value of the record
  for that field is the value of the last match: if the list of matches is \<open>before\<close>,
  then \<open>(k, v)\<close>, then matches of other fields only, the dictionary of the matches and
  the record of the file hold \<open>v\<close> under \<open>k\<close>, and this record is the one the loop
  appends for the file.
\<close>

theorem C9_last_match_wins:
  assumes "findall content = before @ (k, v) # after"
    and "k \<notin> fst ` set after"
    and "k \<in> set field_names"
    and "set field_names \<subseteq> fst ` set (findall content)"
  shows "meta_matches content k = Some v \<and>
         map_of (plugin_items (make_plugin filename (meta_matches content))) k = Some v \<and>
         (endswith filename (lit ''.py'') \<and>
          file_text w (path_join PLUGIN_DIR filename) = Some content \<longrightarrow>
            scan_plugins w (filename # rest) acc =
              scan_plugins w rest (acc @ [make_plugin filename (meta_matches content)]))"
proof -
  from assms(1,2) have m: "meta_matches content k = Some v"
    by (simp add: meta_matches_def dict_last)
  from assms(4) have h: "has_all_fields (meta_matches content)"
    by (simp add: has_all_fields_iff)
  from plugin_items_lookup [OF h assms(3)] m h show ?thesis
    by simp
qed

theorem C9_witness:
  "findall demo_duplicate =
     [(lit ''name'', lit ''Money Converter''), (lit ''author'', lit ''Ayden''),
      (lit ''version'', lit ''1.1''), (lit ''description'', lit ''Convert currencies...'')] @
     (lit ''version'', lit ''2.0'') # [] \<and>
   lit ''version'' \<notin> fst ` set [] \<and>
   lit ''version'' \<in> set field_names \<and>
   set field_names \<subseteq> fst ` set (findall demo_duplicate) \<and>
   endswith (lit ''Grapher.py'') (lit ''.py'') \<and>
   file_text ordered_world (path_join PLUGIN_DIR (lit ''Grapher.py'')) = Some demo_duplicate \<and>
   meta_matches demo_duplicate (lit ''version'') = Some (lit ''2.0'') \<and>
   version (make_plugin (lit ''Grapher.py'') (meta_matches demo_duplicate)) = lit ''2.0'' \<and>
   scan_plugins ordered_world [lit ''Grapher.py''] [] =
     Inr [make_plugin (lit ''Grapher.py'') (meta_matches demo_duplicate)]"
proof -
  have a: "lit ''version'' \<notin> fst ` set ([] :: (str \<times> str) list)"
    by simp
  have f: "lit ''version'' \<in> set field_names"
    by (simp add: field_names_def)
  have s: "set field_names \<subseteq> fst ` set (findall demo_duplicate)"
    by (simp add: findall_demo_duplicate field_names_def)
  have e: "endswith (lit ''Grapher.py'') (lit ''.py'')"
    by (simp add: endswith_def lit_def)
  have r: "file_text ordered_world (path_join PLUGIN_DIR (lit ''Grapher.py'')) = Some demo_duplicate"
    by (simp add: ordered_world_def path_defs lit_def)
  note c = C9_last_match_wins [OF findall_demo_duplicate a f s,
      of "lit ''Grapher.py''" ordered_world "[]" "[]"]
  from c have 1: "meta_matches demo_duplicate (lit ''version'') = Some (lit ''2.0'')"
    by blast
  then have 2: "version (make_plugin (lit ''Grapher.py'') (meta_matches demo_duplicate)) = lit ''2.0''"
    by (simp add: make_plugin_def)
  from c e r have "scan_plugins ordered_world [lit ''Grapher.py''] [] =
      scan_plugins ordered_world [] ([] @ [make_plugin (lit ''Grapher.py'') (meta_matches demo_duplicate)])"
    by blast
  then have 3: "scan_plugins ordered_world [lit ''Grapher.py''] [] =
     Inr [make_plugin (lit ''Grapher.py'') (meta_matches demo_duplicate)]"
    by simp
  from findall_demo_duplicate f s e r 1 2 3 show ?thesis
    by simp
qed

text \<open>
  C10. The claim fails when a quote follows the empty value on the same line: the lazy
  value then starts with the closing quote of the empty string and runs to that later
  quote. In \<^verbatim>\<open>__plugin_name__ = "" or "Untitled"\<close> the name is present with the value
  \<^verbatim>\<open>" or \<close>, and a file with this line and the three other fields is in the manifest.
\<close>

theorem C10_counterexample:
  "metadata_pattern (lit ''__plugin_name__ = '' @ [34, 34] @ lit '' or '' @ [34] @
                     lit ''Untitled'' @ [34, 10]) =
     Some (lit ''name'', [34] @ lit '' or '', lit ''Untitled'' @ [34, 10]) \<and>
   meta_matches empty_name_content (lit ''name'') = Some ([34] @ lit '' or '') \<and>
   has_all_fields (meta_matches empty_name_content) \<and>
   scan_plugins
     \<lparr> listdir = Some [lit ''untitled.py''],
       file_text = [lit ''plugins/untitled.py'' \<mapsto> empty_name_content],
       open_output_fails = False, write_fails_after = None, print_fails_after = None,
       stdout = [] \<rparr>
     [lit ''untitled.py''] [] =
     Inr [make_plugin (lit ''untitled.py'') (meta_matches empty_name_content)]"
proof -
  have f: "findall empty_name_content =
     [(lit ''name'', [34] @ lit '' or ''), (lit ''author'', lit ''Ayden''),
      (lit ''version'', lit ''1.0''), (lit ''description'', lit ''No name'')]"
    by (simp add: empty_name_content_def regex_defs)
  have 1: "metadata_pattern (lit ''__plugin_name__ = '' @ [34, 34] @ lit '' or '' @ [34] @
                     lit ''Untitled'' @ [34, 10]) =
     Some (lit ''name'', [34] @ lit '' or '', lit ''Untitled'' @ [34, 10])"
    by (simp add: regex_defs)
  have 2: "meta_matches empty_name_content (lit ''name'') = Some ([34] @ lit '' or '')"
    by (simp add: meta_matches_def f dict_def lit_def)
  have 3: "has_all_fields (meta_matches empty_name_content)"
    by (simp add: has_all_fields_iff f field_names_def)
  have 4: "scan_plugins
     \<lparr> listdir = Some [lit ''untitled.py''],
       file_text = [lit ''plugins/untitled.py'' \<mapsto> empty_name_content],
       open_output_fails = False, write_fails_after = None, print_fails_after = None,
       stdout = [] \<rparr>
     [lit ''untitled.py''] [] =
     Inr [make_plugin (lit ''untitled.py'') (meta_matches empty_name_content)]"
    using 3 by (simp add: path_defs lit_def)
  from 1 2 3 4 show ?thesis
    by (intro conjI)
qed

text \<open>
  C10 as amended. An assignment with an empty value, \<open>__plugin_<field>__ = ""\<close>, is not
  matched when no quote follows it before the end of its line (or of the text). When
  this assignment is the only place of the text where \<open>__plugin_<field>__\<close> occurs, the
  field is not present, so the file lacks a required field and the loop passes over it
  without a record.
\<close>

theorem C10_empty_value_is_not_matched:
  assumes "k \<in> set field_names" and "list_all isspace ws1" and "list_all isspace ws2"
    and "is_quote q1" and "is_quote q2"
    and "\<not> list_ex is_quote (takeWhile not_newline tail)"
    and "content = pre @ lit ''__plugin_'' @ k @ lit ''__'' @ ws1 @ lit ''='' @ ws2 @ q1 # q2 # tail"
    and "filter (\<lambda>i. prefix (lit ''__plugin_'' @ k @ lit ''__'') (drop i content))
           [0..<length content] = [length pre]"
  shows "metadata_pattern (drop (length pre) content) = None \<and>
         meta_matches content k = None \<and>
         \<not> has_all_fields (meta_matches content) \<and>
         (file_text w (path_join PLUGIN_DIR filename) = Some content \<longrightarrow>
            scan_plugins w (filename # rest) acc = scan_plugins w rest acc)"
proof -
  have none: "metadata_pattern (drop (length pre) content) = None"
    using metadata_pattern_empty_value [OF assms(1-4,6), of q2]
    by (simp add: assms(7))
  have "k \<notin> fst ` set (findall content)"
  proof
    assume "k \<in> fst ` set (findall content)"
    then obtain v where "(k, v) \<in> set (findall content)"
      by auto
    from findall_in [OF this] obtain i r where
      i: "i < length content" "metadata_pattern (drop i content) = Some (k, v, r)"
      by blast
    from metadata_pattern_prefix [OF i(2)] i(1)
    have "i \<in> set (filter (\<lambda>i. prefix (lit ''__plugin_'' @ k @ lit ''__'') (drop i content))
           [0..<length content])"
      by simp
    then have "i = length pre"
      by (simp only: assms(8)) simp
    with i(2) none show False
      by simp
  qed
  then have m: "meta_matches content k = None"
    by (simp add: meta_matches_def dict_None)
  with assms(1) have h: "\<not> has_all_fields (meta_matches content)"
    by (auto simp: has_all_fields_def list_all_iff)
  then have "scan_plugins w (filename # rest) acc = scan_plugins w rest acc"
    if "file_text w (path_join PLUGIN_DIR filename) = Some content"
    using that by (simp add: Let_def)
  with none m h show ?thesis
    by blast
qed

theorem C10_witness:
  "lit ''name'' \<in> set field_names \<and> list_all isspace (lit '' '') \<and> is_quote 34 \<and>
   \<not> list_ex is_quote (takeWhile not_newline (10 # lit ''__plugin_author__ = '' @ [34] @ lit ''Ayden'' @ [34, 10])) \<and>
   empty_name_only =
     (lit ''# draft'' @ [10]) @ lit ''__plugin_'' @ lit ''name'' @ lit ''__'' @ lit '' '' @
     lit ''='' @ lit '' '' @ 34 # 34 # 10 # lit ''__plugin_author__ = '' @ [34] @ lit ''Ayden'' @ [34, 10] \<and>
   filter (\<lambda>i. prefix (lit ''__plugin_'' @ lit ''name'' @ lit ''__'') (drop i empty_name_only))
     [0..<length empty_name_only] = [length (lit ''# draft'' @ [10])] \<and>
   findall empty_name_only = [(lit ''author'', lit ''Ayden'')] \<and>
   meta_matches empty_name_only (lit ''name'') = None \<and>
   \<not> has_all_fields (meta_matches empty_name_only) \<and>
   file_text untitled_world (path_join PLUGIN_DIR (lit ''untitled.py'')) = Some empty_name_only \<and>
   scan_plugins untitled_world [lit ''untitled.py''] [] = Inr []"
proof -
  have k: "lit ''name'' \<in> set field_names"
    by (simp add: field_names_def)
  have ws: "list_all isspace (lit '' '')"
    by (simp add: lit_def isspace_def)
  have q: "is_quote 34"
    by (simp add: is_quote_def)
  have t: "\<not> list_ex is_quote (takeWhile not_newline
      (10 # lit ''__plugin_author__ = '' @ [34] @ lit ''Ayden'' @ [34, 10]))"
    by (simp add: not_newline_def)
  have e: "empty_name_only =
     (lit ''# draft'' @ [10]) @ lit ''__plugin_'' @ lit ''name'' @ lit ''__'' @ lit '' '' @
     lit ''='' @ lit '' '' @ 34 # 34 # 10 # lit ''__plugin_author__ = '' @ [34] @ lit ''Ayden'' @ [34, 10]"
    by (simp add: empty_name_only_def lit_def)
  have o: "filter (\<lambda>i. prefix (lit ''__plugin_'' @ lit ''name'' @ lit ''__'') (drop i empty_name_only))
     [0..<length empty_name_only] = [length (lit ''# draft'' @ [10])]"
    by (simp add: empty_name_only_def lit_def upt_rec)
  have f: "findall empty_name_only = [(lit ''author'', lit ''Ayden'')]"
    by (simp add: empty_name_only_def regex_defs)
  have r: "file_text untitled_world (path_join PLUGIN_DIR (lit ''untitled.py'')) = Some empty_name_only"
    by (simp add: untitled_world_def path_defs lit_def)
  note c = C10_empty_value_is_not_matched [OF k ws ws q q t e o,
      of untitled_world "lit ''untitled.py''" "[]" "[]"]
  from c have 1: "meta_matches empty_name_only (lit ''name'') = None \<and>
        \<not> has_all_fields (meta_matches empty_name_only)"
    by blast
  from c r have "scan_plugins untitled_world [lit ''untitled.py''] [] = scan_plugins untitled_world [] []"
    by blast
  then have 2: "scan_plugins untitled_world [lit ''untitled.py''] [] = Inr []"
    by simp
  from k ws q t e o f 1 r 2 show ?thesis
    by (intro conjI) blast+
qed

end
